theory Spec2Isabelle
  imports Main "HOL-Library.Sublist"
begin

section \<open>Data model\<close>

subsection \<open>Generic documents\<close>

text \<open>
  The values that \<^verbatim>\<open>json.load\<close> and \<^verbatim>\<open>yaml.safe_load\<close> produce: Python's \<^verbatim>\<open>None\<close>,
  booleans, numbers, strings, lists and dicts with string keys. A dict is kept as the list
  of its items in insertion order; a dict read from a file has no key twice. The payload
  of a number is a type parameter: no function below looks at it.

  Python has one value \<^verbatim>\<open>None\<close>: a JSON \<^verbatim>\<open>null\<close> is loaded as \<^verbatim>\<open>None\<close>, and a function that
  returns "nothing" returns the same \<^verbatim>\<open>None\<close>. Both are \<open>JNull\<close>.
\<close>

datatype 'n json =
    JNull
  | JBool bool
  | JNum 'n
  | JStr string
  | JArr "'n json list"
  | JObj "(string \<times> 'n json) list"

section \<open>The schema sanitizer (preprocessjson.py)\<close>

text \<open>
  The test \<^verbatim>\<open>"type" in schema and schema["type"] == ["null"]\<close> of a dict: the key is
  present and its value is a list of one element, the string \<^verbatim>\<open>"null"\<close>.
\<close>

definition has_null_type :: "(string \<times> 'n json) list \<Rightarrow> bool" where
  "has_null_type kvs = (map_of kvs ''type'' = Some (JArr [JStr ''null'']))"

text \<open>
  \<^verbatim>\<open>remove_null_types\<close>, branch by branch: a dict with the null type gives \<^verbatim>\<open>None\<close>, any
  other dict the comprehension \<^verbatim>\<open>{k: remove_null_types(v) for k, v in schema.items()}\<close>;
  a list the comprehension
  \<^verbatim>\<open>[remove_null_types(item) for item in schema if remove_null_types(item) is not None]\<close>;
  everything else is returned as it is.
\<close>

fun remove_null_types :: "'n json \<Rightarrow> 'n json" where
  "remove_null_types (JObj kvs) =
     (if has_null_type kvs then JNull
      else JObj (map (\<lambda>(k, v). (k, remove_null_types v)) kvs))"
| "remove_null_types (JArr xs) =
     JArr (map remove_null_types (filter (\<lambda>item. remove_null_types item \<noteq> JNull) xs))"
| "remove_null_types v = v"

text \<open>
  The nodes whose sanitized value is \<^verbatim>\<open>None\<close>: \<^verbatim>\<open>None\<close> itself and a dict with the null
  type (see \<open>remove_null_types_JNull_iff\<close>).
\<close>

fun dropped :: "'n json \<Rightarrow> bool" where
  "dropped JNull = True"
| "dropped (JObj kvs) = has_null_type kvs"
| "dropped v = False"


subsection \<open>The sanitizer on a store of objects\<close>

text \<open>
  To speak of mutation the values are put in a store. A Python value is \<^verbatim>\<open>None\<close>, a boolean,
  a number, a string (all immutable), or a reference to a dict or list object; the store is
  the list of the objects allocated so far, a reference is an index into it, and a new
  object is appended.
\<close>

datatype 'n pyval = PNone | PBool bool | PNum 'n | PStr string | PRef nat

datatype 'n pyobj = PDict "(string \<times> 'n pyval) list" | PList "'n pyval list"

type_synonym 'n pyheap = "'n pyobj list"

text \<open>
  The test \<^verbatim>\<open>"type" in schema and schema["type"] == ["null"]\<close> in a store: the value of
  the key is a list object that holds exactly the string \<^verbatim>\<open>"null"\<close>.
\<close>

definition has_null_type_in :: "'n pyheap \<Rightarrow> (string \<times> 'n pyval) list \<Rightarrow> bool" where
  "has_null_type_in h kvs =
     (case map_of kvs ''type'' of
        Some (PRef a) \<Rightarrow> a < length h \<and> h ! a = PList [PStr ''null'']
      | _ \<Rightarrow> False)"

text \<open>
  \<^verbatim>\<open>remove_null_types\<close> on a store, with the two comprehensions as functions of their own.
  The first argument bounds the depth of the recursion, as Python's recursion limit does:
  \<open>None\<close> is the call that exceeds it (and a reference outside the store, which no
  Python value is). The dict comprehension calls the function once for each item; the
  list comprehension calls it for the test \<^verbatim>\<open>is not None\<close> and, when the test holds, again
  for the element, and each call allocates what it builds. The new dict or list is
  appended to the store and its reference returned.
\<close>

fun remove_null_types_in :: "nat \<Rightarrow> 'n pyheap \<Rightarrow> 'n pyval \<Rightarrow> ('n pyval \<times> 'n pyheap) option"
  and dict_comprehension ::
    "nat \<Rightarrow> 'n pyheap \<Rightarrow> (string \<times> 'n pyval) list
       \<Rightarrow> ((string \<times> 'n pyval) list \<times> 'n pyheap) option"
  and list_comprehension ::
    "nat \<Rightarrow> 'n pyheap \<Rightarrow> 'n pyval list \<Rightarrow> ('n pyval list \<times> 'n pyheap) option"
where
  "remove_null_types_in 0 h schema = None"
| "remove_null_types_in (Suc depth) h (PRef a) =
     (if a < length h then
        (case h ! a of
           PDict kvs \<Rightarrow>
             (if has_null_type_in h kvs then Some (PNone, h)
              else (case dict_comprehension depth h kvs of
                      None \<Rightarrow> None
                    | Some (kvs', h') \<Rightarrow> Some (PRef (length h'), h' @ [PDict kvs'])))
         | PList items \<Rightarrow>
             (case list_comprehension depth h items of
                None \<Rightarrow> None
              | Some (items', h') \<Rightarrow> Some (PRef (length h'), h' @ [PList items'])))
      else None)"
| "remove_null_types_in (Suc depth) h schema = Some (schema, h)"
| "dict_comprehension depth h [] = Some ([], h)"
| "dict_comprehension depth h ((k, v) # rest) =
     (case remove_null_types_in depth h v of
        None \<Rightarrow> None
      | Some (v', h1) \<Rightarrow>
          (case dict_comprehension depth h1 rest of
             None \<Rightarrow> None
           | Some (rest', h2) \<Rightarrow> Some ((k, v') # rest', h2)))"
| "list_comprehension depth h [] = Some ([], h)"
| "list_comprehension depth h (item # rest) =
     (case remove_null_types_in depth h item of
        None \<Rightarrow> None
      | Some (c, h1) \<Rightarrow>
          (if c \<noteq> PNone then
             (case remove_null_types_in depth h1 item of
                None \<Rightarrow> None
              | Some (item', h2) \<Rightarrow>
                  (case list_comprehension depth h2 rest of
                     None \<Rightarrow> None
                   | Some (rest', h3) \<Rightarrow> Some (item' # rest', h3)))
           else list_comprehension depth h1 rest))"


text \<open>
  The tree that a value stands for in a store, read to a given depth: the link between the
  store and the trees of type \<open>json\<close>. \<open>None\<close> when the depth does not suffice.
\<close>

fun tree_of :: "nat \<Rightarrow> 'n pyheap \<Rightarrow> 'n pyval \<Rightarrow> 'n json option"
  and items_of :: "nat \<Rightarrow> 'n pyheap \<Rightarrow> (string \<times> 'n pyval) list \<Rightarrow> (string \<times> 'n json) list option"
  and trees_of :: "nat \<Rightarrow> 'n pyheap \<Rightarrow> 'n pyval list \<Rightarrow> 'n json list option"
where
  "tree_of 0 h v = None"
| "tree_of (Suc depth) h PNone = Some JNull"
| "tree_of (Suc depth) h (PBool b) = Some (JBool b)"
| "tree_of (Suc depth) h (PNum x) = Some (JNum x)"
| "tree_of (Suc depth) h (PStr s) = Some (JStr s)"
| "tree_of (Suc depth) h (PRef a) =
     (if a < length h then
        (case h ! a of
           PDict kvs \<Rightarrow> map_option JObj (items_of depth h kvs)
         | PList vs \<Rightarrow> map_option JArr (trees_of depth h vs))
      else None)"
| "items_of depth h [] = Some []"
| "items_of depth h ((k, v) # rest) =
     (case tree_of depth h v of
        None \<Rightarrow> None
      | Some t \<Rightarrow> map_option (\<lambda>ts. (k, t) # ts) (items_of depth h rest))"
| "trees_of depth h [] = Some []"
| "trees_of depth h (v # rest) =
     (case tree_of depth h v of
        None \<Rightarrow> None
      | Some t \<Rightarrow> map_option (\<lambda>ts. t # ts) (trees_of depth h rest))"

text \<open>
  A store that holds \<^verbatim>\<open>{"anyOf": [{"type": ["null"]}, {"type": "string"}]}\<close> at address 4,
  and the store after sanitizing that dict.
\<close>

definition demo_heap :: "int pyheap" where
  "demo_heap =
     [PList [PStr ''null''],
      PDict [(''type'', PRef 0)],
      PDict [(''type'', PStr ''string'')],
      PList [PRef 1, PRef 2],
      PDict [(''anyOf'', PRef 3)]]"

definition demo_heap_after :: "int pyheap" where
  "demo_heap_after =
     demo_heap @
     [PDict [(''type'', PStr ''string'')],
      PDict [(''type'', PStr ''string'')],
      PList [PRef 6],
      PDict [(''anyOf'', PRef 7)]]"

section \<open>Catalog discovery (src/wic/plugins.py)\<close>

subsection \<open>Strings, paths and dicts\<close>

text \<open>The test \<^verbatim>\<open>needle in s\<close> of two Python strings: \<open>needle\<close> occurs in \<open>s\<close>.\<close>

fun str_in :: "string \<Rightarrow> string \<Rightarrow> bool" where
  "str_in needle [] = (needle = [])"
| "str_in needle (c # cs) =
     (take (length needle) (c # cs) = needle \<or> str_in needle cs)"

text \<open>\<^verbatim>\<open>s.split(sep)\<close> for a separator of one character.\<close>

fun split_on :: "char \<Rightarrow> string \<Rightarrow> string list" where
  "split_on sep [] = [[]]"
| "split_on sep (c # cs) =
     (if c = sep then [] # split_on sep cs
      else (case split_on sep cs of
              [] \<Rightarrow> [[c]]
            | w # ws \<Rightarrow> (c # w) # ws))"

text \<open>\<^verbatim>\<open>s.rfind(c)\<close>: the last index of the character, \<open>None\<close> for Python's \<open>-1\<close>.\<close>

fun rfind :: "char \<Rightarrow> string \<Rightarrow> nat option" where
  "rfind c [] = None"
| "rfind c (x # xs) =
     (case rfind c xs of
        Some i \<Rightarrow> Some (Suc i)
      | None \<Rightarrow> if x = c then Some 0 else None)"

text \<open>
  \<^verbatim>\<open>Path(p).name\<close> and \<^verbatim>\<open>Path(p).stem\<close> of pathlib for a POSIX path: the name is the last
  component that is neither empty nor \<^verbatim>\<open>.\<close>; the stem is the name up to its last dot,
  when that dot is neither the first nor the last character of the name.
\<close>

definition path_name :: "string \<Rightarrow> string" where
  "path_name p =
     (case filter (\<lambda>c. c \<noteq> [] \<and> c \<noteq> ''.'') (split_on CHR ''/'' p) of
        [] \<Rightarrow> []
      | cs \<Rightarrow> last cs)"

definition path_stem :: "string \<Rightarrow> string" where
  "path_stem p =
     (let name = path_name p in
      case rfind CHR ''.'' name of
        Some i \<Rightarrow> if 0 < i \<and> i < length name - 1 then take i name else name
      | None \<Rightarrow> name)"

text \<open>
  A Python dict as the list of its items. \<open>map_of\<close> reads a key; \<open>dict_set\<close> is the
  assignment \<^verbatim>\<open>d[k] = v\<close>, which replaces the value of a key that is present and appends
  the item otherwise; \<open>dict_union a b\<close> is \<^verbatim>\<open>{**a, **b}\<close>.
\<close>

type_synonym ('k, 'v) dict = "('k \<times> 'v) list"

fun dict_set :: "'k \<Rightarrow> 'v \<Rightarrow> ('k, 'v) dict \<Rightarrow> ('k, 'v) dict" where
  "dict_set k v [] = [(k, v)]"
| "dict_set k v ((k', v') # kvs) =
     (if k' = k then (k', v) # kvs else (k', v') # dict_set k v kvs)"

fun dict_union :: "('k, 'v) dict \<Rightarrow> ('k, 'v) dict \<Rightarrow> ('k, 'v) dict" where
  "dict_union a [] = a"
| "dict_union a ((k, v) # b) = dict_union (dict_set k v a) b"

text \<open>
  \<^verbatim>\<open>sorted(paths, key=len, reverse=True)\<close>: CPython reverses the list, sorts it stably in
  ascending order of the key and reverses the result, so that paths of equal length keep
  their order; \<open>sort_key\<close> is a stable sort.
\<close>

definition sorted_len_reverse :: "string list \<Rightarrow> string list" where
  "sorted_len_reverse paths = rev (sort_key length (rev paths))"

subsection \<open>The environment\<close>

text \<open>
  An exception: \<open>AttributeError\<close> is raised by the code modelled here (a method call on a
  value that has no such method); \<open>Raised name\<close> is an exception of class \<open>name\<close> that a
  library or helper call raises.
\<close>

datatype error = AttributeError | Raised string

text \<open>
  What the code reads from outside, as functions of the build's environment (the file
  system and the working directory do not change while a catalog is built):
  \<^item> \<open>copy_config_files\<close> and \<open>read_lines_pairs\<close> are the helpers of \<^verbatim>\<open>utils\<close>, which is not
    among the sources: the first returns nothing, the second the (namespace, directory)
    pairs of a registry file, in file order;
  \<^item> \<open>glob_cwl d\<close> is \<^verbatim>\<open>glob.glob(str(Path(d) / '**/*.cwl'), recursive=True)\<close>, and
    \<open>glob_yml d\<close> the same for \<^verbatim>\<open>'**/*.yml'\<close>;
  \<^item> \<open>mkdir p\<close> is \<^verbatim>\<open>Path(p).mkdir(parents=True, exist_ok=True)\<close>;
  \<^item> \<open>load_yaml p\<close> opens and reads the file and applies \<^verbatim>\<open>yaml.safe_load\<close>;
  \<^item> \<open>abspath\<close> is \<^verbatim>\<open>os.path.abspath\<close> and \<open>absolute\<close> is \<^verbatim>\<open>Path.absolute\<close>;
  \<^item> \<open>fetch_document\<close>, \<open>resolve_and_validate_document\<close> (with its \<^verbatim>\<open>preprocess_only\<close>
    argument) and \<open>make_tool\<close> are the functions of \<^verbatim>\<open>cwltool.load_tool\<close>, over the types
    \<open>'lc\<close> of loading contexts, \<open>'wo\<close> of workflow objects and \<open>'pr\<close> of processes.
  A call that raises returns the error.
\<close>

record ('n, 'lc, 'wo, 'pr) env =
  copy_config_files :: "string \<Rightarrow> error option"
  read_lines_pairs :: "string \<Rightarrow> error + (string \<times> string) list"
  glob_cwl :: "string \<Rightarrow> string list"
  glob_yml :: "string \<Rightarrow> string list"
  mkdir :: "string \<Rightarrow> error option"
  load_yaml :: "string \<Rightarrow> error + 'n json"
  abspath :: "string \<Rightarrow> string"
  absolute :: "string \<Rightarrow> string"
  fetch_document :: "string \<Rightarrow> error + ('lc \<times> 'wo \<times> string)"
  resolve_and_validate_document ::
    "'lc \<Rightarrow> 'wo \<Rightarrow> string \<Rightarrow> bool \<Rightarrow> error + ('lc \<times> string)"
  make_tool :: "string \<Rightarrow> 'lc \<Rightarrow> error + 'pr"

text \<open>
  Modelled from the spec: the types \<^verbatim>\<open>StepId\<close> and \<^verbatim>\<open>Tool\<close> of \<^verbatim>\<open>wic_types\<close>, which is not
  among the sources. A StepId is a file stem with a namespace, equal to another when both
  fields are; a Tool is the absolute path of a definition file with its loaded document.
\<close>

datatype step_id = StepId (name: string) (namespace: string)

datatype 'n tool = Tool (run_path: string) (cwl: "'n json")

type_synonym 'n tools = "(step_id, 'n tool) dict"

text \<open>What \<^verbatim>\<open>print\<close> has written to standard output: one entry for each call.\<close>

type_synonym stdout = "string list"

subsection \<open>The tool catalog\<close>

text \<open>
  \<^verbatim>\<open>validate_cwl\<close>: the three calls into cwltool, each of which may raise. The assignment of
  \<^verbatim>\<open>skip_schemas\<close> to the loading context and the keyword argument of the second call are
  commented out in the source, so the parameter \<open>skip_schemas\<close> is not used.
\<close>

definition validate_cwl ::
  "('n, 'lc, 'wo, 'pr) env \<Rightarrow> string \<Rightarrow> bool \<Rightarrow> error + unit" where
  "validate_cwl fs cwl_path_str skip_schemas =
     (case fetch_document fs cwl_path_str of
        Inl e \<Rightarrow> Inl e
      | Inr (loading_context, workflowobj, uri) \<Rightarrow>
          (case resolve_and_validate_document fs loading_context workflowobj uri False of
             Inl e \<Rightarrow> Inl e
           | Inr (loading_context', uri') \<Rightarrow>
               (case make_tool fs uri' loading_context' of
                  Inl e \<Rightarrow> Inl e
                | Inr process \<Rightarrow> Inr ())))"

text \<open>
  The two calls \<^verbatim>\<open>tool.update({'stdout': f'{stem}.out'})\<close> and
  \<^verbatim>\<open>tool.update({'stderr': f'{stem}.err'})\<close> on a document that is a dict.
\<close>

definition set_stdout_stderr ::
  "string \<Rightarrow> (string, 'n json) dict \<Rightarrow> (string, 'n json) dict" where
  "set_stdout_stderr stem tool =
     dict_set ''stderr'' (JStr (stem @ ''.err''))
       (dict_set ''stdout'' (JStr (stem @ ''.out'')) tool)"

text \<open>
  The body of the loop over the paths of one directory: a path that contains
  \<^verbatim>\<open>biobb_md\<close> is skipped; the file is loaded; it is validated when \<open>validate_plugins\<close> is
  set; the two keys are set (a document that is not a dict has no \<^verbatim>\<open>update\<close>); the tool
  is stored under its StepId.
\<close>

definition tools_file_step ::
  "('n, 'lc, 'wo, 'pr) env \<Rightarrow> bool \<Rightarrow> bool \<Rightarrow> string \<Rightarrow> 'n tools \<Rightarrow> string
     \<Rightarrow> error + 'n tools" where
  "tools_file_step fs validate_plugins skip_schemas plugin_ns tools_cwl cwl_path_str =
     (if str_in ''biobb_md'' cwl_path_str then Inr tools_cwl
      else
        (case load_yaml fs cwl_path_str of
           Inl e \<Rightarrow> Inl e
         | Inr tool \<Rightarrow>
             (let stem = path_stem cwl_path_str in
              (case (if validate_plugins then validate_cwl fs cwl_path_str skip_schemas
                     else Inr ()) of
                 Inl e \<Rightarrow> Inl e
               | Inr u \<Rightarrow>
                   (case tool of
                      JObj kvs \<Rightarrow>
                        Inr (dict_set (StepId stem plugin_ns)
                               (Tool (abspath fs cwl_path_str)
                                  (JObj (set_stdout_stderr stem kvs)))
                               tools_cwl)
                    | _ \<Rightarrow> Inl AttributeError)))))"

fun tools_files_loop ::
  "('n, 'lc, 'wo, 'pr) env \<Rightarrow> bool \<Rightarrow> bool \<Rightarrow> string \<Rightarrow> 'n tools \<Rightarrow> string list
     \<Rightarrow> error + 'n tools" where
  "tools_files_loop fs validate_plugins skip_schemas plugin_ns tools_cwl [] = Inr tools_cwl"
| "tools_files_loop fs validate_plugins skip_schemas plugin_ns tools_cwl (p # ps) =
     (case tools_file_step fs validate_plugins skip_schemas plugin_ns tools_cwl p of
        Inl e \<Rightarrow> Inl e
      | Inr tools_cwl' \<Rightarrow>
          tools_files_loop fs validate_plugins skip_schemas plugin_ns tools_cwl' ps)"

text \<open>The two lines printed when a directory has no file of the suffix.\<close>

definition no_files_warning :: "string \<Rightarrow> string \<Rightarrow> string \<Rightarrow> stdout" where
  "no_files_warning ext dir dirs_file_absolute =
     [''Warning! No '' @ ext @ '' files found in '' @ dir @ ''.'' @ [CHR 0x0A]
        @ ''Check '' @ dirs_file_absolute,
      ''This almost certainly means you are not in the correct directory.'']"

text \<open>
  The body of the loop over the (namespace, directory) pairs: the glob, the creation of
  the output directory, the warning when the glob found nothing, the loop over the paths.
\<close>

definition tools_dir_step ::
  "('n, 'lc, 'wo, 'pr) env \<Rightarrow> bool \<Rightarrow> bool \<Rightarrow> string \<Rightarrow> 'n tools \<times> stdout
     \<Rightarrow> string \<times> string \<Rightarrow> error + ('n tools \<times> stdout)" where
  "tools_dir_step fs validate_plugins skip_schemas cwl_dirs_file st pair =
     (case st of (tools_cwl, out) \<Rightarrow>
      case pair of (plugin_ns, cwl_dir) \<Rightarrow>
        (let cwl_paths = glob_cwl fs cwl_dir in
         (case mkdir fs ''autogenerated/schemas/tools/'' of
            Some e \<Rightarrow> Inl e
          | None \<Rightarrow>
              (let out' = (if length cwl_paths = 0
                           then out @ no_files_warning ''cwl'' cwl_dir
                                        (absolute fs cwl_dirs_file)
                           else out) in
               (case tools_files_loop fs validate_plugins skip_schemas plugin_ns
                       tools_cwl cwl_paths of
                  Inl e \<Rightarrow> Inl e
                | Inr tools_cwl' \<Rightarrow> Inr (tools_cwl', out'))))))"

fun tools_dirs_loop ::
  "('n, 'lc, 'wo, 'pr) env \<Rightarrow> bool \<Rightarrow> bool \<Rightarrow> string \<Rightarrow> 'n tools \<times> stdout
     \<Rightarrow> (string \<times> string) list \<Rightarrow> error + ('n tools \<times> stdout)" where
  "tools_dirs_loop fs validate_plugins skip_schemas cwl_dirs_file st [] = Inr st"
| "tools_dirs_loop fs validate_plugins skip_schemas cwl_dirs_file st (pair # pairs) =
     (case tools_dir_step fs validate_plugins skip_schemas cwl_dirs_file st pair of
        Inl e \<Rightarrow> Inl e
      | Inr st' \<Rightarrow> tools_dirs_loop fs validate_plugins skip_schemas cwl_dirs_file st' pairs)"

text \<open>
  \<^verbatim>\<open>get_tools_cwl\<close>. The registry file is \<^verbatim>\<open>Path(homedir) / 'wic' / 'cwl_dirs.txt'\<close>, for a
  home directory written without a separator at its end. The result is the catalog; what
  was printed is returned with it.
\<close>

definition get_tools_cwl ::
  "('n, 'lc, 'wo, 'pr) env \<Rightarrow> string \<Rightarrow> bool \<Rightarrow> bool \<Rightarrow> error + ('n tools \<times> stdout)" where
  "get_tools_cwl fs homedir validate_plugins skip_schemas =
     (case copy_config_files fs homedir of
        Some e \<Rightarrow> Inl e
      | None \<Rightarrow>
          (let cwl_dirs_file = homedir @ ''/wic/cwl_dirs.txt'' in
           (case read_lines_pairs fs cwl_dirs_file of
              Inl e \<Rightarrow> Inl e
            | Inr cwl_dirs \<Rightarrow>
                tools_dirs_loop fs validate_plugins skip_schemas cwl_dirs_file
                  ([], []) cwl_dirs)))"

subsection \<open>The workflow catalog\<close>

type_synonym yml_paths = "(string, string) dict"

text \<open>
  The loop that fills the map of one pair: a path that contains \<^verbatim>\<open>_inputs\<close> is left out,
  any other is stored under its stem, over what the stem held before.
\<close>

fun yml_paths_loop ::
  "('n, 'lc, 'wo, 'pr) env \<Rightarrow> yml_paths \<Rightarrow> string list \<Rightarrow> yml_paths" where
  "yml_paths_loop fs yml_paths [] = yml_paths"
| "yml_paths_loop fs yml_paths (yml_path_str # rest) =
     yml_paths_loop fs
       (if \<not> str_in ''_inputs'' yml_path_str
        then dict_set (path_stem yml_path_str) (abspath fs yml_path_str) yml_paths
        else yml_paths)
       rest"

text \<open>The map of one directory: the loop over the sorted glob, from the empty dict.\<close>

definition yml_pair_paths :: "('n, 'lc, 'wo, 'pr) env \<Rightarrow> string \<Rightarrow> yml_paths" where
  "yml_pair_paths fs yml_dir = yml_paths_loop fs [] (sorted_len_reverse (glob_yml fs yml_dir))"

text \<open>
  The body of the loop over the pairs: the sorted glob, the output directory, the warning,
  the map of the pair, and its union into the map the namespace has so far
  (\<^verbatim>\<open>yml_paths_all.get(yml_namespace, {})\<close>).
\<close>

definition yml_dir_step ::
  "('n, 'lc, 'wo, 'pr) env \<Rightarrow> string \<Rightarrow> (string, yml_paths) dict \<times> stdout
     \<Rightarrow> string \<times> string \<Rightarrow> error + ((string, yml_paths) dict \<times> stdout)" where
  "yml_dir_step fs yml_dirs_file st pair =
     (case st of (yml_paths_all, out) \<Rightarrow>
      case pair of (yml_namespace, yml_dir) \<Rightarrow>
        (let yml_paths_sorted = sorted_len_reverse (glob_yml fs yml_dir) in
         (case mkdir fs ''autogenerated/schemas/workflows/'' of
            Some e \<Rightarrow> Inl e
          | None \<Rightarrow>
              (let out' = (if length yml_paths_sorted = 0
                           then out @ no_files_warning ''yml'' yml_dir
                                        (absolute fs yml_dirs_file)
                           else out);
                   yml_paths = yml_paths_loop fs [] yml_paths_sorted;
                   ns_dict = (case map_of yml_paths_all yml_namespace of
                                None \<Rightarrow> []
                              | Some d \<Rightarrow> d)
               in Inr (dict_set yml_namespace (dict_union ns_dict yml_paths) yml_paths_all,
                       out')))))"

fun yml_dirs_loop ::
  "('n, 'lc, 'wo, 'pr) env \<Rightarrow> string \<Rightarrow> (string, yml_paths) dict \<times> stdout
     \<Rightarrow> (string \<times> string) list \<Rightarrow> error + ((string, yml_paths) dict \<times> stdout)" where
  "yml_dirs_loop fs yml_dirs_file st [] = Inr st"
| "yml_dirs_loop fs yml_dirs_file st (pair # pairs) =
     (case yml_dir_step fs yml_dirs_file st pair of
        Inl e \<Rightarrow> Inl e
      | Inr st' \<Rightarrow> yml_dirs_loop fs yml_dirs_file st' pairs)"

definition get_yml_paths ::
  "('n, 'lc, 'wo, 'pr) env \<Rightarrow> string \<Rightarrow> error + ((string, yml_paths) dict \<times> stdout)" where
  "get_yml_paths fs homedir =
     (case copy_config_files fs homedir of
        Some e \<Rightarrow> Inl e
      | None \<Rightarrow>
          (let yml_dirs_file = homedir @ ''/wic/yml_dirs.txt'' in
           (case read_lines_pairs fs yml_dirs_file of
              Inl e \<Rightarrow> Inl e
            | Inr yml_dirs \<Rightarrow> yml_dirs_loop fs yml_dirs_file ([], []) yml_dirs)))"

text \<open>The entry \<^verbatim>\<open>yml_paths_all[ns][s]\<close> of a workflow catalog, when it has one.\<close>

definition yml_lookup :: "(string, yml_paths) dict \<Rightarrow> string \<Rightarrow> string \<Rightarrow> string option" where
  "yml_lookup yml_paths_all ns s =
     (case map_of yml_paths_all ns of
        None \<Rightarrow> None
      | Some d \<Rightarrow> map_of d s)"

subsection \<open>An example environment\<close>

text \<open>
  A home directory \<^verbatim>\<open>/home/u\<close> whose registries list three directories of the namespace
  \<^verbatim>\<open>ns\<close> each, the last of them without a file; the working directory is \<^verbatim>\<open>/w\<close>. The
  theorems below are applied to it.
\<close>

definition demo_fs :: "(int, unit, unit, unit) env" where
  "demo_fs =
     \<lparr>copy_config_files = (\<lambda>homedir. None),
      read_lines_pairs = (\<lambda>file.
        if file = ''/home/u/wic/yml_dirs.txt''
        then Inr [(''ns'', ''a''), (''ns'', ''bb/c''), (''ns'', ''empty'')]
        else if file = ''/home/u/wic/cwl_dirs.txt''
        then Inr [(''ns'', ''t''), (''ns'', ''u/v''), (''ns'', ''empty'')]
        else Inl (Raised ''FileNotFoundError'')),
      glob_cwl = (\<lambda>dir.
        if dir = ''t'' then [''t/align.cwl'', ''t/biobb_md/old.cwl'', ''t/sort.cwl'']
        else if dir = ''u/v'' then [''u/v/align.cwl'']
        else []),
      glob_yml = (\<lambda>dir.
        if dir = ''a''
        then [''a/foo.yml'', ''a/x/y/bar.yml'', ''a/bar.yml'', ''a/bar_inputs.yml'']
        else if dir = ''bb/c'' then [''bb/c/foo.yml'']
        else []),
      mkdir = (\<lambda>path. None),
      load_yaml = (\<lambda>path.
        if path = ''t/align.cwl''
        then Inr (JObj [(''class'', JStr ''CommandLineTool''), (''cwlVersion'', JStr ''v1.0'')])
        else if path = ''u/v/align.cwl''
        then Inr (JObj [(''stdout'', JStr ''old.log''), (''class'', JStr ''CommandLineTool'')])
        else if path = ''t/sort.cwl''
        then Inr (JObj [(''class'', JStr ''CommandLineTool'')])
        else Inl (Raised ''FileNotFoundError'')),
      abspath = (\<lambda>path. ''/w/'' @ path),
      absolute = (\<lambda>path. path),
      fetch_document = (\<lambda>path. Inr ((), (), ''file://'' @ path)),
      resolve_and_validate_document = (\<lambda>loading_context workflowobj uri preprocess_only.
        Inr (loading_context, uri)),
      make_tool = (\<lambda>uri loading_context. Inr ())\<rparr>"

text \<open>
  The entry of the catalog that \<^verbatim>\<open>get_yml_paths\<close> returned; none when the call raised.
\<close>

definition yml_result_lookup ::
  "error + ((string, yml_paths) dict \<times> stdout) \<Rightarrow> string \<Rightarrow> string \<Rightarrow> string option" where
  "yml_result_lookup r ns s =
     (case r of
        Inl e \<Rightarrow> None
      | Inr (yml_paths_all, out) \<Rightarrow> yml_lookup yml_paths_all ns s)"

text \<open>The tool catalog built in the example environment.\<close>

definition demo_tools :: "int tools" where
  "demo_tools =
     [(StepId ''align'' ''ns'',
       Tool ''/w/u/v/align.cwl''
         (JObj [(''stdout'', JStr ''align.out''), (''class'', JStr ''CommandLineTool''),
                (''stderr'', JStr ''align.err'')])),
      (StepId ''sort'' ''ns'',
       Tool ''/w/t/sort.cwl''
         (JObj [(''class'', JStr ''CommandLineTool''),
                (''stdout'', JStr ''sort.out''), (''stderr'', JStr ''sort.err'')]))]"

section \<open>Properties of the sanitizer\<close>

lemma remove_null_types_JNull_iff: "remove_null_types x = JNull \<longleftrightarrow> dropped x"
  by (cases x) simp_all

lemma map_of_map_values:
  "map_of (map (\<lambda>(k, v). (k, f v)) kvs) k = map_option f (map_of kvs k)"
  by (induction kvs) auto

lemma map_fst_map_values: "map fst (map (\<lambda>(k, v). (k, f v)) kvs) = map fst kvs"
  by (induction kvs) auto








lemma remove_null_types_JArr_filter:
  "remove_null_types (JArr xs) = JArr (filter (\<lambda>y. y \<noteq> JNull) (map remove_null_types xs))"
  by (simp add: filter_map o_def)

text \<open>
  C5. A dict whose \<^verbatim>\<open>"type"\<close> is exactly \<^verbatim>\<open>["null"]\<close> is sanitized to \<^verbatim>\<open>None\<close>; a list is
  sanitized element by element and the elements whose result is \<^verbatim>\<open>None\<close> are left out; a
  scalar is returned as it is. The two examples of the specification follow.
\<close>

theorem remove_null_types_rules:
  "(map_of kvs ''type'' = Some (JArr [JStr ''null'']) \<longrightarrow>
      remove_null_types (JObj kvs) = JNull)
   \<and> remove_null_types (JArr xs)
       = JArr (filter (\<lambda>y. y \<noteq> JNull) (map remove_null_types xs))
   \<and> remove_null_types JNull = (JNull :: 'n json)
   \<and> remove_null_types (JBool b) = (JBool b :: 'n json)
   \<and> remove_null_types (JNum n) = JNum n
   \<and> remove_null_types (JStr s) = (JStr s :: 'n json)
   \<and> remove_null_types
        (JObj [(''anyOf'', JArr [JObj [(''type'', JArr [JStr ''null''])],
                                 JObj [(''type'', JStr ''string'')]])] :: 'n json)
       = JObj [(''anyOf'', JArr [JObj [(''type'', JStr ''string'')]])]
   \<and> remove_null_types (JArr [JObj [(''type'', JArr [JStr ''null''])], JNum n])
       = JArr [JNum n]"
proof -
  have "map_of kvs ''type'' = Some (JArr [JStr ''null'']) \<longrightarrow>
          remove_null_types (JObj kvs) = JNull"
    by (simp add: has_null_type_def)
  moreover have "remove_null_types (JArr xs)
       = JArr (filter (\<lambda>y. y \<noteq> JNull) (map remove_null_types xs))"
    by (rule remove_null_types_JArr_filter)
  moreover have "remove_null_types
        (JObj [(''anyOf'', JArr [JObj [(''type'', JArr [JStr ''null''])],
                                 JObj [(''type'', JStr ''string'')]])] :: 'n json)
       = JObj [(''anyOf'', JArr [JObj [(''type'', JStr ''string'')]])]"
    by (simp add: has_null_type_def)
  moreover have "remove_null_types (JArr [JObj [(''type'', JArr [JStr ''null''])], JNum n])
       = JArr [JNum n]"
    by (simp add: has_null_type_def)
  ultimately show ?thesis by simp
qed

text \<open>
  The first rule at \<^verbatim>\<open>{"title": "t", "type": ["null"]}\<close>, and the list rule at
  \<^verbatim>\<open>[null, {"type": ["null"]}, 5, "a"]\<close>.
\<close>

theorem remove_null_types_rules_witness:
  "map_of [(''title'', JStr ''t''), (''type'', JArr [JStr ''null''])] ''type''
     = Some (JArr [JStr ''null''] :: int json)
   \<and> remove_null_types
        (JObj [(''title'', JStr ''t''), (''type'', JArr [JStr ''null''])] :: int json) = JNull
   \<and> remove_null_types
        (JArr [JNull, JObj [(''type'', JArr [JStr ''null''])], JNum 5, JStr ''a''] :: int json)
       = JArr [JNum 5, JStr ''a'']"
  using remove_null_types_rules
    [of "[(''title'', JStr ''t''), (''type'', JArr [JStr ''null''])]"
        "[JNull, JObj [(''type'', JArr [JStr ''null''])], JNum 5, JStr ''a'']" _ 5]
  by (simp add: has_null_type_def)

text \<open>
  C6. A dict that is not itself removed keeps its keys, in their order: the sanitized dict
  has the same keys, each bound to the sanitized value, and a key whose value was sanitized
  to \<^verbatim>\<open>None\<close> stays, bound to \<^verbatim>\<open>None\<close>.
\<close>

theorem remove_null_types_keeps_keys:
  "\<not> has_null_type kvs \<Longrightarrow>
     \<exists>kvs'. remove_null_types (JObj kvs) = JObj kvs'
       \<and> map fst kvs' = map fst kvs
       \<and> (\<forall>k v. map_of kvs k = Some v \<longrightarrow> map_of kvs' k = Some (remove_null_types v))
       \<and> (\<forall>k v. map_of kvs k = Some v \<and> dropped v \<longrightarrow> map_of kvs' k = Some JNull)"
proof -
  assume n: "\<not> has_null_type kvs"
  let ?kvs' = "map (\<lambda>(k, v). (k, remove_null_types v)) kvs"
  have "remove_null_types (JObj kvs) = JObj ?kvs'"
    using n by simp
  moreover have "map fst ?kvs' = map fst kvs"
    by (rule map_fst_map_values)
  moreover have v: "\<forall>k v. map_of kvs k = Some v \<longrightarrow>
                     map_of ?kvs' k = Some (remove_null_types v)"
    by (simp add: map_of_map_values)
  moreover have "\<forall>k v. map_of kvs k = Some v \<and> dropped v \<longrightarrow> map_of ?kvs' k = Some JNull"
    using v remove_null_types_JNull_iff by metis
  ultimately show ?thesis by blast
qed

text \<open>
  The theorem at \<^verbatim>\<open>{"default": {"type": ["null"]}, "title": "t"}\<close>: the key \<^verbatim>\<open>default\<close> is
  kept and bound to \<^verbatim>\<open>None\<close>.
\<close>

theorem remove_null_types_keeps_keys_witness:
  "\<not> has_null_type
        [(''default'', JObj [(''type'', JArr [JStr ''null''])]), (''title'', JStr ''t'' :: nat json)]
   \<and> remove_null_types
        (JObj [(''default'', JObj [(''type'', JArr [JStr ''null''])]),
               (''title'', JStr ''t'' :: nat json)])
       = JObj [(''default'', JNull), (''title'', JStr ''t'')]"
  using remove_null_types_keeps_keys
    [of "[(''default'', JObj [(''type'', JArr [JStr ''null''])]),
          (''title'', JStr ''t'' :: nat json)]"]
  by (simp add: has_null_type_def)

section \<open>The sanitizer does not change its argument\<close>

lemma remove_null_types_in_extends:
  "remove_null_types_in n h v = Some (r, h') \<Longrightarrow> prefix h h'"
  "dict_comprehension n h kvs = Some (kvs', h') \<Longrightarrow> prefix h h'"
  "list_comprehension n h vs = Some (vs', h') \<Longrightarrow> prefix h h'"
proof (induction n h v and n h kvs and n h vs arbitrary: r h' and kvs' h' and vs' h'
    rule: remove_null_types_in_dict_comprehension_list_comprehension.induct)
  case (2 depth h a)
  show ?case
  proof (cases "h ! a")
    case (PDict kvs)
    with "2.prems" "2.IH"(1) show ?thesis
      by (auto split: if_splits option.splits intro: prefix_order.trans)
  next
    case (PList vs)
    with "2.prems" "2.IH"(2) show ?thesis
      by (auto split: if_splits option.splits intro: prefix_order.trans)
  qed
next
  case (5 depth h k v rest)
  from "5.prems" obtain v' h1 rest'
    where a: "remove_null_types_in depth h v = Some (v', h1)"
      and b: "dict_comprehension depth h1 rest = Some (rest', h')"
    by (auto split: option.splits)
  from "5.IH"(1) [OF a] "5.IH"(2) [OF a refl b] show ?case
    by (rule prefix_order.trans)
next
  case (7 depth h item rest)
  from "7.prems" obtain c h1
    where a: "remove_null_types_in depth h item = Some (c, h1)"
    by (auto split: option.splits)
  note p1 = "7.IH"(1) [OF a]
  show ?case
  proof (cases "c \<noteq> PNone")
    case True
    with "7.prems" a obtain item' h2 rest'
      where b: "remove_null_types_in depth h1 item = Some (item', h2)"
        and c: "list_comprehension depth h2 rest = Some (rest', h')"
      by (auto split: option.splits)
    from "7.IH"(2) [OF a refl True b] "7.IH"(3) [OF a refl True b refl c]
    have "prefix h1 h'" by (rule prefix_order.trans)
    with p1 show ?thesis by (rule prefix_order.trans)
  next
    case False
    with "7.prems" a have "list_comprehension depth h1 rest = Some (vs', h')"
      by simp
    from p1 "7.IH"(4) [OF a refl False this] show ?thesis
      by (rule prefix_order.trans)
  qed
qed simp_all

lemma remove_null_types_in_result:
  assumes "remove_null_types_in n h v = Some (r, h')"
  shows "(\<forall>a. r = PRef a \<longrightarrow> length h \<le> a \<and> a < length h')
       \<and> ((\<forall>a. v \<noteq> PRef a) \<longrightarrow> r = v \<and> h' = h)"
proof (cases n)
  case 0
  with assms show ?thesis by simp
next
  case (Suc depth)
  show ?thesis
  proof (cases v)
    case (PRef a)
    show ?thesis
    proof (cases "h ! a")
      case (PDict kvs)
      with assms Suc PRef show ?thesis
        by (auto split: if_splits option.splits
            dest!: remove_null_types_in_extends(2) prefix_length_le)
    next
      case (PList vs)
      with assms Suc PRef show ?thesis
        by (auto split: if_splits option.splits
            dest!: remove_null_types_in_extends(3) prefix_length_le)
    qed
  qed (use assms Suc in auto)
qed

lemma nth_prefix_heap: "prefix h h' \<Longrightarrow> a < length h \<Longrightarrow> h' ! a = h ! a"
  by (auto simp: prefix_def nth_append)

lemma tree_of_extends:
  "tree_of n h v = Some t \<Longrightarrow> prefix h h' \<Longrightarrow> tree_of n h' v = Some t"
  "items_of n h kvs = Some kts \<Longrightarrow> prefix h h' \<Longrightarrow> items_of n h' kvs = Some kts"
  "trees_of n h vs = Some ts \<Longrightarrow> prefix h h' \<Longrightarrow> trees_of n h' vs = Some ts"
proof (induction n h v and n h kvs and n h vs arbitrary: t and kts and ts
    rule: tree_of_items_of_trees_of.induct)
  case (6 depth h a)
  from "6.prems"(1) have a: "a < length h"
    by (simp split: if_splits)
  with "6.prems"(2) have a': "a < length h'" and e: "h' ! a = h ! a"
    by (auto simp: nth_prefix_heap dest: prefix_length_le)
  show ?case
  proof (cases "h ! a")
    case (PDict kvs)
    with "6.prems" a a' e "6.IH"(1) [OF a PDict] show ?thesis
      by auto
  next
    case (PList vs)
    with "6.prems" a a' e "6.IH"(2) [OF a PList] show ?thesis
      by auto
  qed
next
  case (8 depth h k v rest)
  then show ?case
    by (auto split: option.splits)
next
  case (10 depth h v rest)
  then show ?case
    by (auto split: option.splits)
qed simp_all

lemma tree_of_scalar_iff:
  "tree_of n h v = Some JNull \<longleftrightarrow> 0 < n \<and> v = PNone"
  "tree_of n h v = Some (JStr s) \<longleftrightarrow> 0 < n \<and> v = PStr s"
proof -
  show "tree_of n h v = Some JNull \<longleftrightarrow> 0 < n \<and> v = PNone"
  proof (cases n)
    case (Suc m)
    then show ?thesis
      by (cases v) (auto split: if_splits pyobj.splits)
  qed simp
  show "tree_of n h v = Some (JStr s) \<longleftrightarrow> 0 < n \<and> v = PStr s"
  proof (cases n)
    case (Suc m)
    then show ?thesis
      by (cases v) (auto split: if_splits pyobj.splits)
  qed simp
qed

lemma tree_of_scalar:
  "tree_of n h PNone = (if n = 0 then None else Some JNull)"
  "tree_of n h (PBool b) = (if n = 0 then None else Some (JBool b))"
  "tree_of n h (PNum x) = (if n = 0 then None else Some (JNum x))"
  "tree_of n h (PStr s) = (if n = 0 then None else Some (JStr s))"
  by (cases n; simp)+

lemma map_of_items_of:
  "items_of n h kvs = Some kts \<Longrightarrow>
     map_of kts k = (case map_of kvs k of None \<Rightarrow> None | Some v \<Rightarrow> tree_of n h v)"
proof (induction kvs arbitrary: kts)
  case Nil
  then show ?case by simp
next
  case (Cons kv kvs)
  obtain k' v' where kv: "kv = (k', v')" by (cases kv)
  with Cons.prems obtain t' kts' where t: "tree_of n h v' = Some t'"
    and r: "items_of n h kvs = Some kts'" and k: "kts = (k', t') # kts'"
    by (auto split: option.splits)
  from Cons.IH [OF r] kv t k show ?case by simp
qed

lemma trees_of_singleton_str:
  "trees_of n h vs = Some [JStr s] \<longleftrightarrow> 0 < n \<and> vs = [PStr s]"
proof (cases vs)
  case Nil
  then show ?thesis by simp
next
  case (Cons v rest)
  show ?thesis
  proof (cases rest)
    case Nil
    with Cons show ?thesis
      by (auto simp: tree_of_scalar_iff tree_of_scalar split: option.splits)
  next
    case (Cons v2 rest2)
    with \<open>vs = v # rest\<close> show ?thesis
      by (auto split: option.splits)
  qed
qed

lemma tree_of_null_list_iff:
  "tree_of n h v = Some (JArr [JStr ''null'']) \<longleftrightarrow>
     (\<exists>a. v = PRef a \<and> a < length h \<and> h ! a = PList [PStr ''null''] \<and> 2 \<le> n)"
proof (cases n)
  case 0
  then show ?thesis by simp
next
  case (Suc m)
  show ?thesis
  proof (cases v)
    case (PRef a)
    show ?thesis
    proof (cases "a < length h")
      case True
      show ?thesis
      proof (cases "h ! a")
        case (PDict kvs)
        with Suc PRef True show ?thesis by auto
      next
        case (PList vs)
        with Suc PRef True show ?thesis
          by (auto simp: trees_of_singleton_str)
      qed
    next
      case False
      with Suc PRef show ?thesis by simp
    qed
  qed (use Suc in auto)
qed

lemma items_of_values:
  "items_of n h kvs = Some kts \<Longrightarrow> map_of kvs k = Some v \<Longrightarrow> \<exists>t. tree_of n h v = Some t"
proof (induction kvs arbitrary: kts)
  case Nil
  then show ?case by simp
next
  case (Cons kv kvs)
  obtain k' v' where kv: "kv = (k', v')" by (cases kv)
  with Cons.prems(1) obtain t' kts' where t: "tree_of n h v' = Some t'"
    and r: "items_of n h kvs = Some kts'"
    by (auto split: option.splits)
  show ?case
  proof (cases "k' = k")
    case True
    with Cons.prems(2) kv t show ?thesis by simp
  next
    case False
    with Cons.prems(2) kv have "map_of kvs k = Some v" by simp
    with r show ?thesis by (rule Cons.IH)
  qed
qed

lemma tree_of_null_list_fuel:
  assumes "tree_of n h (PRef a) = Some t" and "h ! a = PList [PStr ''null'']"
  shows "2 \<le> n"
proof (cases n)
  case 0
  with assms show ?thesis by simp
next
  case (Suc m)
  with assms have "trees_of m h [PStr ''null''] \<noteq> None"
    by (auto split: if_splits)
  then have "m \<noteq> 0"
    by (cases m) auto
  with Suc show ?thesis by simp
qed

lemma has_null_type_in_iff:
  assumes "items_of n h kvs = Some kts"
  shows "has_null_type_in h kvs \<longleftrightarrow> has_null_type kts"
proof (cases "map_of kvs ''type''")
  case None
  with map_of_items_of [OF assms, of "''type''"] show ?thesis
    by (simp add: has_null_type_in_def has_null_type_def)
next
  case (Some v)
  with map_of_items_of [OF assms, of "''type''"]
  have m: "map_of kts ''type'' = tree_of n h v" by simp
  from items_of_values [OF assms Some] obtain t where t: "tree_of n h v = Some t" ..
  show ?thesis
  proof
    assume "has_null_type_in h kvs"
    with Some obtain a where a: "v = PRef a" "a < length h" "h ! a = PList [PStr ''null'']"
      by (auto simp: has_null_type_in_def split: pyval.splits)
    with t have "2 \<le> n"
      by (auto dest: tree_of_null_list_fuel)
    with a have "tree_of n h v = Some (JArr [JStr ''null''])"
      by (simp add: tree_of_null_list_iff)
    with m show "has_null_type kts"
      by (simp add: has_null_type_def)
  next
    assume "has_null_type kts"
    with m have "tree_of n h v = Some (JArr [JStr ''null''])"
      by (simp add: has_null_type_def)
    then obtain a where "v = PRef a" "a < length h" "h ! a = PList [PStr ''null'']"
      by (auto simp: tree_of_null_list_iff)
    with Some show "has_null_type_in h kvs"
      by (simp add: has_null_type_in_def)
  qed
qed

lemma refine_items:
  assumes IH: "\<And>(h :: 'n pyheap) v t. tree_of n h v = Some t \<Longrightarrow>
                 \<exists>r h'. remove_null_types_in n h v = Some (r, h')
                   \<and> tree_of n h' r = Some (remove_null_types t)"
  shows "items_of n (h :: 'n pyheap) kvs = Some kts \<Longrightarrow>
           \<exists>kvs' h'. dict_comprehension n h kvs = Some (kvs', h')
             \<and> items_of n h' kvs' = Some (map (\<lambda>(k, t). (k, remove_null_types t)) kts)"
proof (induction kvs arbitrary: h kts)
  case Nil
  then show ?case by simp
next
  case (Cons kv rest)
  obtain k v where kv: "kv = (k, v)" by (cases kv)
  with Cons.prems obtain t kts' where t: "tree_of n h v = Some t"
    and r: "items_of n h rest = Some kts'" and k: "kts = (k, t) # kts'"
    by (auto split: option.splits)
  from IH [OF t] obtain v' h1
    where c1: "remove_null_types_in n h v = Some (v', h1)"
      and d1: "tree_of n h1 v' = Some (remove_null_types t)"
    by blast
  from c1 have p1: "prefix h h1" by (rule remove_null_types_in_extends)
  from r p1 have "items_of n h1 rest = Some kts'" by (rule tree_of_extends)
  from Cons.IH [OF this] obtain rest' h2
    where c2: "dict_comprehension n h1 rest = Some (rest', h2)"
      and d2: "items_of n h2 rest' = Some (map (\<lambda>(k, t). (k, remove_null_types t)) kts')"
    by blast
  from c2 have "prefix h1 h2" by (rule remove_null_types_in_extends)
  with d1 have "tree_of n h2 v' = Some (remove_null_types t)" by (rule tree_of_extends)
  with c1 c2 d2 kv k show ?case by simp
qed

lemma refine_elems:
  assumes IH: "\<And>(h :: 'n pyheap) v t. tree_of n h v = Some t \<Longrightarrow>
                 \<exists>r h'. remove_null_types_in n h v = Some (r, h')
                   \<and> tree_of n h' r = Some (remove_null_types t)"
  shows "trees_of n (h :: 'n pyheap) vs = Some ts \<Longrightarrow>
           \<exists>vs' h'. list_comprehension n h vs = Some (vs', h')
             \<and> trees_of n h' vs'
                 = Some (map remove_null_types
                           (filter (\<lambda>item. remove_null_types item \<noteq> JNull) ts))"
proof (induction vs arbitrary: h ts)
  case Nil
  then show ?case by simp
next
  case (Cons v rest)
  from Cons.prems obtain t ts' where t: "tree_of n h v = Some t"
    and r: "trees_of n h rest = Some ts'" and k: "ts = t # ts'"
    by (auto split: option.splits)
  from IH [OF t] obtain c h1
    where c1: "remove_null_types_in n h v = Some (c, h1)"
      and d1: "tree_of n h1 c = Some (remove_null_types t)"
    by blast
  from c1 have p1: "prefix h h1" by (rule remove_null_types_in_extends)
  from d1 have n0: "0 < n" by (cases n) auto
  from d1 n0 have cn: "c = PNone \<longleftrightarrow> remove_null_types t = JNull"
    by (auto simp: tree_of_scalar tree_of_scalar_iff)
  show ?case
  proof (cases "c = PNone")
    case True
    from r p1 have "trees_of n h1 rest = Some ts'" by (rule tree_of_extends)
    from Cons.IH [OF this] obtain rest' h2
      where c2: "list_comprehension n h1 rest = Some (rest', h2)"
        and d2: "trees_of n h2 rest'
                 = Some (map remove_null_types
                           (filter (\<lambda>item. remove_null_types item \<noteq> JNull) ts'))"
      by blast
    with True cn c1 k show ?thesis by simp
  next
    case False
    from t p1 have "tree_of n h1 v = Some t" by (rule tree_of_extends)
    from IH [OF this] obtain v' h2
      where c2: "remove_null_types_in n h1 v = Some (v', h2)"
        and d2: "tree_of n h2 v' = Some (remove_null_types t)"
      by blast
    from c2 have p2: "prefix h1 h2" by (rule remove_null_types_in_extends)
    with p1 have "prefix h h2" by (rule prefix_order.trans)
    with r have "trees_of n h2 rest = Some ts'" by (rule tree_of_extends)
    from Cons.IH [OF this] obtain rest' h3
      where c3: "list_comprehension n h2 rest = Some (rest', h3)"
        and d3: "trees_of n h3 rest'
                 = Some (map remove_null_types
                           (filter (\<lambda>item. remove_null_types item \<noteq> JNull) ts'))"
      by blast
    from c3 have "prefix h2 h3" by (rule remove_null_types_in_extends)
    with d2 have "tree_of n h3 v' = Some (remove_null_types t)" by (rule tree_of_extends)
    with False cn c1 c2 c3 d3 k show ?thesis by simp
  qed
qed

lemma remove_null_types_in_refines:
  "tree_of n h v = Some t \<Longrightarrow>
     \<exists>r h'. remove_null_types_in n h v = Some (r, h')
       \<and> tree_of n h' r = Some (remove_null_types t)"
proof (induction n arbitrary: h v t)
  case 0
  then show ?case by simp
next
  case (Suc n)
  show ?case
  proof (cases v)
    case (PRef a)
    with Suc.prems have a: "a < length h" by (simp split: if_splits)
    show ?thesis
    proof (cases "h ! a")
      case (PDict kvs)
      with Suc.prems PRef a obtain kts where i: "items_of n h kvs = Some kts"
        and t: "t = JObj kts"
        by auto
      show ?thesis
      proof (cases "has_null_type_in h kvs")
        case True
        with has_null_type_in_iff [OF i] t PRef a PDict show ?thesis by simp
      next
        case False
        with has_null_type_in_iff [OF i] have nt: "\<not> has_null_type kts" by simp
        from refine_items [OF Suc.IH i] obtain kvs' h'
          where c: "dict_comprehension n h kvs = Some (kvs', h')"
            and d: "items_of n h' kvs' = Some (map (\<lambda>(k, t). (k, remove_null_types t)) kts)"
          by blast
        have "prefix h' (h' @ [PDict kvs'])" by simp
        with d have "items_of n (h' @ [PDict kvs']) kvs'
                       = Some (map (\<lambda>(k, t). (k, remove_null_types t)) kts)"
          by (rule tree_of_extends)
        with c False nt t PRef a PDict show ?thesis by simp
      qed
    next
      case (PList vs)
      with Suc.prems PRef a obtain ts where i: "trees_of n h vs = Some ts"
        and t: "t = JArr ts"
        by auto
      from refine_elems [OF Suc.IH i] obtain vs' h'
        where c: "list_comprehension n h vs = Some (vs', h')"
          and d: "trees_of n h' vs'
                   = Some (map remove_null_types
                             (filter (\<lambda>item. remove_null_types item \<noteq> JNull) ts))"
        by blast
      have "prefix h' (h' @ [PList vs'])" by simp
      with d have "trees_of n (h' @ [PList vs']) vs'
                     = Some (map remove_null_types
                               (filter (\<lambda>item. remove_null_types item \<noteq> JNull) ts))"
        by (rule tree_of_extends)
      with c t PRef a PList show ?thesis by simp
    qed
  qed (use Suc.prems in auto)
qed

text \<open>
  C10. When \<^verbatim>\<open>remove_null_types\<close> returns, the store is the store of before with new objects
  appended: every object that existed keeps its contents, so the argument stands for the
  same tree as before the call; a result that is a reference is the address of a new
  object, not of one that existed; a scalar argument is returned as it is. And on every
  store in which the argument stands for a tree the call does return (within the depth
  that reads the tree), with a result that stands for the sanitized tree.
\<close>

theorem remove_null_types_in_frame:
  "(remove_null_types_in n h v = Some (r, h') \<longrightarrow>
      prefix h h'
      \<and> (\<forall>a. a < length h \<longrightarrow> h' ! a = h ! a)
      \<and> (\<forall>m t. tree_of m h v = Some t \<longrightarrow> tree_of m h' v = Some t)
      \<and> (\<forall>a. r = PRef a \<longrightarrow> length h \<le> a \<and> a < length h')
      \<and> ((\<forall>a. v \<noteq> PRef a) \<longrightarrow> r = v))
   \<and> (tree_of n h v = Some t \<longrightarrow>
        (\<exists>r h'. remove_null_types_in n h v = Some (r, h')
           \<and> tree_of n h' r = Some (remove_null_types t)))"
proof (intro conjI impI allI)
  assume a: "remove_null_types_in n h v = Some (r, h')"
  then show p: "prefix h h'" by (rule remove_null_types_in_extends)
  show "\<And>a. a < length h \<Longrightarrow> h' ! a = h ! a"
    using p by (rule nth_prefix_heap)
  show "\<And>m t. tree_of m h v = Some t \<Longrightarrow> tree_of m h' v = Some t"
    using p by (rule tree_of_extends(1) [rotated])
  show "\<And>a. r = PRef a \<Longrightarrow> length h \<le> a"
    using remove_null_types_in_result [OF a] by simp
  show "\<And>a. r = PRef a \<Longrightarrow> a < length h'"
    using remove_null_types_in_result [OF a] by simp
  show "\<forall>a. v \<noteq> PRef a \<Longrightarrow> r = v"
    using remove_null_types_in_result [OF a] by simp
next
  assume "tree_of n h v = Some t"
  then show "\<exists>r h'. remove_null_types_in n h v = Some (r, h')
           \<and> tree_of n h' r = Some (remove_null_types t)"
    by (rule remove_null_types_in_refines)
qed

lemma demo_remove_null_types_in:
  "remove_null_types_in 5 demo_heap (PRef 4) = Some (PRef 8, demo_heap_after)"
  by (simp add: eval_nat_numeral demo_heap_def demo_heap_after_def has_null_type_in_def)

lemma demo_tree_of:
  "tree_of 5 demo_heap (PRef 4)
     = Some (JObj [(''anyOf'', JArr [JObj [(''type'', JArr [JStr ''null''])],
                                     JObj [(''type'', JStr ''string'')]])])"
  by (simp add: eval_nat_numeral demo_heap_def)

text \<open>
  The theorem at the example store: the result is the new dict at address 8; the dict at
  address 4 still stands for the input.
\<close>

theorem remove_null_types_in_frame_witness:
  "remove_null_types_in 5 demo_heap (PRef 4) = Some (PRef 8, demo_heap_after)
   \<and> length demo_heap = 5
   \<and> tree_of 5 demo_heap (PRef 4)
       = Some (JObj [(''anyOf'', JArr [JObj [(''type'', JArr [JStr ''null''])],
                                       JObj [(''type'', JStr ''string'')]])])
   \<and> tree_of 5 demo_heap_after (PRef 4)
       = Some (JObj [(''anyOf'', JArr [JObj [(''type'', JArr [JStr ''null''])],
                                       JObj [(''type'', JStr ''string'')]])])
   \<and> tree_of 5 demo_heap_after (PRef 8)
       = Some (JObj [(''anyOf'', JArr [JObj [(''type'', JStr ''string'')]])])"
proof -
  note t = remove_null_types_in_frame
    [of 5 demo_heap "PRef 4" "PRef 8" demo_heap_after
        "JObj [(''anyOf'', JArr [JObj [(''type'', JArr [JStr ''null''])],
                                 JObj [(''type'', JStr ''string'')]])]"]
  note t1 = t [THEN conjunct1, THEN mp, OF demo_remove_null_types_in]
  note same = t1 [THEN conjunct2, THEN conjunct2, THEN conjunct1, THEN spec, THEN spec,
                  THEN mp, OF demo_tree_of]
  from t [THEN conjunct2, THEN mp, OF demo_tree_of] obtain r h'
    where c: "remove_null_types_in 5 demo_heap (PRef 4) = Some (r, h')"
      and d: "tree_of 5 h' r
                = Some (remove_null_types
                    (JObj [(''anyOf'', JArr [JObj [(''type'', JArr [JStr ''null''])],
                                             JObj [(''type'', JStr ''string'')]])]))"
    by (elim exE conjE)
  from c have "r = PRef 8" and "h' = demo_heap_after"
    by (simp_all add: demo_remove_null_types_in)
  with d have res: "tree_of 5 demo_heap_after (PRef 8)
       = Some (JObj [(''anyOf'', JArr [JObj [(''type'', JStr ''string'')]])])"
    by (simp add: has_null_type_def)
  have len: "length demo_heap = 5"
    by (simp add: demo_heap_def)
  from demo_remove_null_types_in len demo_tree_of same res show ?thesis
    by (intro conjI)
qed

section \<open>Properties of dicts and of the sort\<close>

lemma map_of_dict_set: "map_of (dict_set k v d) = (map_of d)(k \<mapsto> v)"
  by (induction d) (auto simp: fun_eq_iff)

lemma keys_dict_set: "fst ` set (dict_set k v d) = insert k (fst ` set d)"
  by (induction d) force+

lemma distinct_dict_set: "distinct (map fst d) \<Longrightarrow> distinct (map fst (dict_set k v d))"
proof (induction d)
  case Nil
  then show ?case by simp
next
  case (Cons kv d)
  obtain k' v' where kv: "kv = (k', v')" by (cases kv)
  show ?case
  proof (cases "k' = k")
    case True
    with Cons.prems kv show ?thesis by simp
  next
    case False
    with Cons kv show ?thesis by (simp add: keys_dict_set)
  qed
qed

lemma map_of_dict_union:
  "distinct (map fst b) \<Longrightarrow> map_of (dict_union a b) = map_of a ++ map_of b"
proof (induction b arbitrary: a)
  case Nil
  then show ?case by simp
next
  case (Cons kv b)
  obtain k v where kv: "kv = (k, v)" by (cases kv)
  with Cons.prems have nk: "k \<notin> fst ` set b" and d: "distinct (map fst b)" by auto
  from nk have "map_of b k = None" by (simp add: map_of_eq_None_iff)
  then have u: "(map_of a)(k \<mapsto> v) ++ map_of b = (map_of a ++ map_of b)(k \<mapsto> v)"
    by (simp add: map_add_upd_left domIff)
  have "map_of (dict_union a ((k, v) # b)) = map_of (dict_union (dict_set k v a) b)"
    by simp
  also have "\<dots> = map_of (dict_set k v a) ++ map_of b"
    by (rule Cons.IH [OF d])
  also have "\<dots> = (map_of a ++ map_of b)(k \<mapsto> v)"
    by (simp only: map_of_dict_set u)
  also have "\<dots> = map_of a ++ map_of ((k, v) # b)"
    by simp
  finally show ?case by (simp only: kv)
qed

lemma yml_paths_loop_lookup:
  "map_of (yml_paths_loop fs d ps) s =
     (case filter (\<lambda>p. \<not> str_in ''_inputs'' p \<and> path_stem p = s) ps of
        [] \<Rightarrow> map_of d s
      | q # qs \<Rightarrow> Some (abspath fs (last (q # qs))))"
proof (induction ps arbitrary: d)
  case Nil
  then show ?case by simp
next
  case (Cons p ps)
  show ?case
    by (simp add: Cons.IH map_of_dict_set split: list.splits)
qed

lemma distinct_yml_paths_loop:
  "distinct (map fst d) \<Longrightarrow> distinct (map fst (yml_paths_loop fs d ps))"
  by (induction ps arbitrary: d) (simp_all add: distinct_dict_set)

lemma set_sorted_len_reverse: "set (sorted_len_reverse xs) = set xs"
  by (simp add: sorted_len_reverse_def)

lemma last_filter_sorted_len_reverse:
  assumes "q \<in> set xs" and "P q"
  shows "filter P (sorted_len_reverse xs) \<noteq> []"
    and "length (last (filter P (sorted_len_reverse xs))) \<le> length q"
    and "last (filter P (sorted_len_reverse xs)) \<in> set xs"
    and "P (last (filter P (sorted_len_reverse xs)))"
proof -
  let ?zs = "sort_key length (rev xs)"
  let ?ys = "filter P ?zs"
  have f: "filter P (sorted_len_reverse xs) = rev ?ys"
    by (simp add: sorted_len_reverse_def rev_filter)
  from assms have q: "q \<in> set ?ys" by simp
  then have ne: "?ys \<noteq> []" by (metis empty_iff empty_set)
  then show "filter P (sorted_len_reverse xs) \<noteq> []" by (simp add: f)
  have l: "last (filter P (sorted_len_reverse xs)) = hd ?ys"
    using ne by (simp add: f last_rev)
  have "sorted (map length ?ys)"
    by (rule sorted_filter) simp
  with ne q show "length (last (filter P (sorted_len_reverse xs))) \<le> length q"
    unfolding l by (cases ?ys) auto
  have "hd ?ys \<in> set ?ys" using ne by (rule hd_in_set)
  then show "last (filter P (sorted_len_reverse xs)) \<in> set xs"
    and "P (last (filter P (sorted_len_reverse xs)))"
    unfolding l by auto
qed

lemma yml_pair_paths_shortest:
  assumes "p \<in> set (glob_yml fs dir)" and "\<not> str_in ''_inputs'' p"
    and "\<forall>q \<in> set (glob_yml fs dir).
           q \<noteq> p \<and> path_stem q = path_stem p \<and> \<not> str_in ''_inputs'' q \<longrightarrow> length p < length q"
  shows "map_of (yml_pair_paths fs dir) (path_stem p) = Some (abspath fs p)"
proof -
  let ?P = "\<lambda>q. \<not> str_in ''_inputs'' q \<and> path_stem q = path_stem p"
  let ?l = "last (filter ?P (sorted_len_reverse (glob_yml fs dir)))"
  from assms(1,2) have Pp: "?P p" by simp
  note L = last_filter_sorted_len_reverse [of p "glob_yml fs dir" ?P, OF assms(1) Pp]
  have "?l = p"
  proof (rule ccontr)
    assume "?l \<noteq> p"
    with L(3,4) assms(3) have "length p < length ?l" by blast
    with L(2) show False by simp
  qed
  moreover from L(1) obtain q qs
    where "filter ?P (sorted_len_reverse (glob_yml fs dir)) = q # qs"
    by (auto simp: neq_Nil_conv)
  ultimately show ?thesis
    by (simp add: yml_pair_paths_def yml_paths_loop_lookup del: last.simps)
qed

section \<open>Properties of the workflow catalog\<close>

lemma sorted_len_reverse_Nil_iff: "sorted_len_reverse xs = [] \<longleftrightarrow> xs = []"
  by (metis set_sorted_len_reverse set_empty)

lemma yml_dir_step_Inr:
  "yml_dir_step fs f (yml_paths_all, out) (ns, dir) = Inr st' \<longleftrightarrow>
     mkdir fs ''autogenerated/schemas/workflows/'' = None
     \<and> st' = (dict_set ns
                 (dict_union (case map_of yml_paths_all ns of None \<Rightarrow> [] | Some d \<Rightarrow> d)
                    (yml_pair_paths fs dir))
                 yml_paths_all,
               if glob_yml fs dir = [] then out @ no_files_warning ''yml'' dir (absolute fs f)
               else out)"
  by (auto simp: yml_dir_step_def yml_pair_paths_def Let_def sorted_len_reverse_Nil_iff
      split: option.splits)

lemma distinct_yml_pair_paths: "distinct (map fst (yml_pair_paths fs dir))"
  by (simp add: yml_pair_paths_def distinct_yml_paths_loop)

lemma yml_dir_step_lookup:
  assumes "yml_dir_step fs f (yml_paths_all, out) (ns, dir) = Inr (all', out')"
  shows "yml_lookup all' ns' s =
           (if ns' = ns
            then (case map_of (yml_pair_paths fs dir) s of
                    Some p \<Rightarrow> Some p
                  | None \<Rightarrow> yml_lookup yml_paths_all ns s)
            else yml_lookup yml_paths_all ns' s)"
proof -
  from assms have a: "all' = dict_set ns
                 (dict_union (case map_of yml_paths_all ns of None \<Rightarrow> [] | Some d \<Rightarrow> d)
                    (yml_pair_paths fs dir))
                 yml_paths_all"
    by (simp add: yml_dir_step_Inr)
  show ?thesis
    by (simp add: a yml_lookup_def map_of_dict_set map_of_dict_union distinct_yml_pair_paths
        map_add_def split: option.splits)
qed

lemma yml_dirs_loop_append:
  "yml_dirs_loop fs f st (ps1 @ ps2) =
     (case yml_dirs_loop fs f st ps1 of
        Inl e \<Rightarrow> Inl e
      | Inr st' \<Rightarrow> yml_dirs_loop fs f st' ps2)"
  by (induction ps1 arbitrary: st) (simp_all split: sum.splits)

lemma yml_dirs_loop_keeps:
  assumes "yml_dirs_loop fs f (yml_paths_all, out) pairs = Inr (all', out')"
    and "yml_lookup yml_paths_all ns s = Some v"
    and "\<forall>(ns', dir') \<in> set pairs. ns' = ns \<longrightarrow> map_of (yml_pair_paths fs dir') s = None"
  shows "yml_lookup all' ns s = Some v"
  using assms
proof (induction pairs arbitrary: yml_paths_all out)
  case Nil
  then show ?case by simp
next
  case (Cons pair pairs)
  obtain ns' dir' where pair: "pair = (ns', dir')" by (cases pair)
  from Cons.prems(1) pair obtain all1 out1
    where s1: "yml_dir_step fs f (yml_paths_all, out) (ns', dir') = Inr (all1, out1)"
      and l1: "yml_dirs_loop fs f (all1, out1) pairs = Inr (all', out')"
    by (auto split: sum.splits)
  from Cons.prems(2,3) pair have "yml_lookup all1 ns s = Some v"
    by (auto simp: yml_dir_step_lookup [OF s1])
  with l1 Cons.prems(3) show ?case
    by (intro Cons.IH [of all1 out1]) auto
qed

lemma yml_dirs_loop_last_line:
  assumes "yml_dirs_loop fs f st (pairs1 @ (ns, dir) # pairs2) = Inr (all', out')"
    and "map_of (yml_pair_paths fs dir) s = Some v"
    and "\<forall>(ns', dir') \<in> set pairs2. ns' = ns \<longrightarrow> map_of (yml_pair_paths fs dir') s = None"
  shows "yml_lookup all' ns s = Some v"
proof -
  from assms(1) obtain all1 out1 all2 out2
    where "yml_dir_step fs f (all1, out1) (ns, dir) = Inr (all2, out2)"
      and l2: "yml_dirs_loop fs f (all2, out2) pairs2 = Inr (all', out')"
    by (auto simp: yml_dirs_loop_append split: sum.splits)
  with assms(2) have "yml_lookup all2 ns s = Some v"
    by (simp add: yml_dir_step_lookup)
  with l2 show ?thesis
    using assms(3) by (rule yml_dirs_loop_keeps)
qed

lemma yml_pair_paths_None:
  "map_of (yml_pair_paths fs dir) s = None \<longleftrightarrow>
     (\<forall>q \<in> set (glob_yml fs dir). str_in ''_inputs'' q \<or> path_stem q \<noteq> s)"
proof -
  have "map_of (yml_pair_paths fs dir) s = None \<longleftrightarrow>
          filter (\<lambda>p. \<not> str_in ''_inputs'' p \<and> path_stem p = s)
            (sorted_len_reverse (glob_yml fs dir)) = []"
    by (simp add: yml_pair_paths_def yml_paths_loop_lookup split: list.splits)
  then show ?thesis
    by (auto simp: filter_empty_conv set_sorted_len_reverse)
qed

lemma get_yml_paths_Inr:
  assumes "get_yml_paths fs homedir = Inr r"
    and "read_lines_pairs fs (homedir @ ''/wic/yml_dirs.txt'') = Inr pairs"
  shows "yml_dirs_loop fs (homedir @ ''/wic/yml_dirs.txt'') ([], []) pairs = Inr r"
  using assms by (auto simp: get_yml_paths_def Let_def split: option.splits)

lemma demo_stems:
  "path_stem ''a/foo.yml'' = ''foo''"
  "path_stem ''a/x/y/bar.yml'' = ''bar''"
  "path_stem ''a/bar.yml'' = ''bar''"
  "path_stem ''a/bar_inputs.yml'' = ''bar_inputs''"
  "path_stem ''bb/c/foo.yml'' = ''foo''"
  by (simp_all add: path_stem_def path_name_def)

lemma demo_sorted:
  "sorted_len_reverse [''a/foo.yml'', ''a/x/y/bar.yml'', ''a/bar.yml'', ''a/bar_inputs.yml'']
     = [''a/bar_inputs.yml'', ''a/x/y/bar.yml'', ''a/foo.yml'', ''a/bar.yml'']"
  by (simp add: sorted_len_reverse_def)

lemma demo_get_yml_paths:
  "get_yml_paths demo_fs ''/home/u'' =
     Inr ([(''ns'', [(''bar'', ''/w/a/bar.yml''), (''foo'', ''/w/bb/c/foo.yml'')])],
          no_files_warning ''yml'' ''empty'' ''/home/u/wic/yml_dirs.txt'')"
  by (simp add: get_yml_paths_def demo_fs_def yml_dir_step_def demo_stems demo_sorted
      sorted_len_reverse_def)


lemma demo_yml_pair_paths:
  "yml_pair_paths demo_fs ''a'' = [(''bar'', ''/w/a/bar.yml''), (''foo'', ''/w/a/foo.yml'')]"
  "yml_pair_paths demo_fs ''bb/c'' = [(''foo'', ''/w/bb/c/foo.yml'')]"
  "yml_pair_paths demo_fs ''empty'' = []"
  by (simp_all add: yml_pair_paths_def demo_fs_def demo_stems demo_sorted sorted_len_reverse_def)


lemma demo_fs_yml:
  "read_lines_pairs demo_fs ''/home/u/wic/yml_dirs.txt''
     = Inr [(''ns'', ''a''), (''ns'', ''bb/c''), (''ns'', ''empty'')]"
  "glob_yml demo_fs ''a''
     = [''a/foo.yml'', ''a/x/y/bar.yml'', ''a/bar.yml'', ''a/bar_inputs.yml'']"
  "glob_yml demo_fs ''bb/c'' = [''bb/c/foo.yml'']"
  "glob_yml demo_fs ''empty'' = []"
  "mkdir demo_fs d = None"
  "abspath demo_fs p = ''/w/'' @ p"
  "absolute demo_fs p = p"
  by (simp_all add: demo_fs_def)

text \<open>
  C1 (as amended). Take the last registry line of a namespace whose directory holds a file
  of a given stem that is not an autogenerated inputs file. When one such file of that
  directory has a path strictly shorter than every other one of the same stem, the final
  catalog binds the stem, in that namespace, to the absolute path of that file, whatever
  the order in which the glob listed the files. Earlier lines of the namespace do not
  matter, whatever the lengths of their paths.
\<close>

theorem yml_shortest_path_of_last_line:
  assumes "get_yml_paths fs homedir = Inr (yml_paths_all, out)"
    and "read_lines_pairs fs (homedir @ ''/wic/yml_dirs.txt'') = Inr (pairs1 @ (ns, dir) # pairs2)"
    and "p \<in> set (glob_yml fs dir)" and "\<not> str_in ''_inputs'' p"
    and "\<forall>q \<in> set (glob_yml fs dir).
           q \<noteq> p \<and> path_stem q = path_stem p \<and> \<not> str_in ''_inputs'' q \<longrightarrow> length p < length q"
    and "\<forall>(ns', dir') \<in> set pairs2. ns' = ns \<longrightarrow>
           (\<forall>q \<in> set (glob_yml fs dir'). str_in ''_inputs'' q \<or> path_stem q \<noteq> path_stem p)"
  shows "yml_lookup yml_paths_all ns (path_stem p) = Some (abspath fs p)"
proof -
  from assms(1,2)
  have l: "yml_dirs_loop fs (homedir @ ''/wic/yml_dirs.txt'') ([], [])
             (pairs1 @ (ns, dir) # pairs2) = Inr (yml_paths_all, out)"
    by (rule get_yml_paths_Inr)
  have m: "map_of (yml_pair_paths fs dir) (path_stem p) = Some (abspath fs p)"
    using assms(3,4,5) by (rule yml_pair_paths_shortest)
  from assms(6)
  have n: "\<forall>(ns', dir') \<in> set pairs2. ns' = ns \<longrightarrow>
             map_of (yml_pair_paths fs dir') (path_stem p) = None"
    by (simp add: yml_pair_paths_None split_def)
  from l m n show ?thesis
    by (rule yml_dirs_loop_last_line)
qed

text \<open>
  The theorem in the example environment: \<^verbatim>\<open>a/bar.yml\<close> and \<^verbatim>\<open>a/x/y/bar.yml\<close> are found in
  the first directory, the glob lists the longer one first, and no later directory has a
  file of the stem \<^verbatim>\<open>bar\<close>.
\<close>

theorem yml_shortest_path_of_last_line_witness:
  "get_yml_paths demo_fs ''/home/u'' =
     Inr ([(''ns'', [(''bar'', ''/w/a/bar.yml''), (''foo'', ''/w/bb/c/foo.yml'')])],
          no_files_warning ''yml'' ''empty'' ''/home/u/wic/yml_dirs.txt'')
   \<and> glob_yml demo_fs ''a''
       = [''a/foo.yml'', ''a/x/y/bar.yml'', ''a/bar.yml'', ''a/bar_inputs.yml'']
   \<and> length ''a/bar.yml'' < length ''a/x/y/bar.yml''
   \<and> yml_lookup [(''ns'', [(''bar'', ''/w/a/bar.yml''), (''foo'', ''/w/bb/c/foo.yml'')])]
        ''ns'' (path_stem ''a/bar.yml'') = Some (abspath demo_fs ''a/bar.yml'')"
proof -
  have r: "read_lines_pairs demo_fs (''/home/u'' @ ''/wic/yml_dirs.txt'')
             = Inr ([] @ (''ns'', ''a'') # [(''ns'', ''bb/c''), (''ns'', ''empty'')])"
    by (simp add: demo_fs_yml)
  have p: "''a/bar.yml'' \<in> set (glob_yml demo_fs ''a'')"
    by (simp add: demo_fs_yml)
  have i: "\<not> str_in ''_inputs'' ''a/bar.yml''"
    by simp
  have s: "\<forall>q \<in> set (glob_yml demo_fs ''a'').
             q \<noteq> ''a/bar.yml'' \<and> path_stem q = path_stem ''a/bar.yml''
               \<and> \<not> str_in ''_inputs'' q \<longrightarrow> length ''a/bar.yml'' < length q"
    by (simp add: demo_fs_yml demo_stems)
  have l: "\<forall>(ns', dir') \<in> set [(''ns'', ''bb/c''), (''ns'', ''empty'')]. ns' = ''ns'' \<longrightarrow>
             (\<forall>q \<in> set (glob_yml demo_fs dir').
                str_in ''_inputs'' q \<or> path_stem q \<noteq> path_stem ''a/bar.yml'')"
    by (simp add: demo_fs_yml demo_stems)
  have n: "length ''a/bar.yml'' < length ''a/x/y/bar.yml''"
    by simp
  from yml_shortest_path_of_last_line [OF demo_get_yml_paths r p i s l]
    demo_get_yml_paths demo_fs_yml(2) n
  show ?thesis
    by (intro conjI)
qed

text \<open>
  C1 as stated fails across registry lines: \<^verbatim>\<open>a/foo.yml\<close> and \<^verbatim>\<open>bb/c/foo.yml\<close> are found
  for the same namespace, the first path is the shorter one, and the final catalog binds
  \<^verbatim>\<open>foo\<close> to the second, which comes from the later line.
\<close>

theorem yml_later_line_wins_over_shorter_path:
  "read_lines_pairs demo_fs ''/home/u/wic/yml_dirs.txt''
     = Inr [(''ns'', ''a''), (''ns'', ''bb/c''), (''ns'', ''empty'')]
   \<and> ''a/foo.yml'' \<in> set (glob_yml demo_fs ''a'')
   \<and> ''bb/c/foo.yml'' \<in> set (glob_yml demo_fs ''bb/c'')
   \<and> path_stem ''a/foo.yml'' = path_stem ''bb/c/foo.yml''
   \<and> length ''a/foo.yml'' < length ''bb/c/foo.yml''
   \<and> yml_result_lookup (get_yml_paths demo_fs ''/home/u'') ''ns'' (path_stem ''a/foo.yml'')
       = Some (abspath demo_fs ''bb/c/foo.yml'')
   \<and> yml_result_lookup (get_yml_paths demo_fs ''/home/u'') ''ns'' (path_stem ''a/foo.yml'')
       \<noteq> Some (abspath demo_fs ''a/foo.yml'')"
  by (simp add: demo_get_yml_paths yml_result_lookup_def yml_lookup_def demo_stems demo_fs_yml)

text \<open>
  C7. Merging the map of a pair into the map its namespace has so far binds a stem to the
  new pair's path when the new pair has the stem and leaves it as it was otherwise; the
  other namespaces are not touched. Hence, in the final catalog, an entry of a registry
  line is still there when no later line of the same namespace has its stem.
\<close>

theorem yml_merge_frame:
  "(yml_dir_step fs f (yml_paths_all, out) (ns, dir) = Inr (all', out') \<longrightarrow>
      (\<exists>d'. map_of all' ns = Some d')
      \<and> (\<forall>s. yml_lookup all' ns s =
               (case map_of (yml_pair_paths fs dir) s of
                  Some p \<Rightarrow> Some p
                | None \<Rightarrow> yml_lookup yml_paths_all ns s))
      \<and> (\<forall>ns' s. ns' \<noteq> ns \<longrightarrow> yml_lookup all' ns' s = yml_lookup yml_paths_all ns' s))
   \<and> (get_yml_paths fs homedir = Inr (final, out2)
      \<and> read_lines_pairs fs (homedir @ ''/wic/yml_dirs.txt'') = Inr (pairs1 @ (ns, dir) # pairs2)
      \<and> map_of (yml_pair_paths fs dir) s = Some v
      \<and> (\<forall>(ns', dir') \<in> set pairs2. ns' = ns \<longrightarrow> map_of (yml_pair_paths fs dir') s = None)
      \<longrightarrow> yml_lookup final ns s = Some v)"
proof (intro conjI impI)
  assume a: "yml_dir_step fs f (yml_paths_all, out) (ns, dir) = Inr (all', out')"
  then show "\<exists>d'. map_of all' ns = Some d'"
    by (simp add: yml_dir_step_Inr map_of_dict_set)
  show "\<forall>s. yml_lookup all' ns s =
               (case map_of (yml_pair_paths fs dir) s of
                  Some p \<Rightarrow> Some p
                | None \<Rightarrow> yml_lookup yml_paths_all ns s)"
    by (simp add: yml_dir_step_lookup [OF a])
  show "\<forall>ns' s. ns' \<noteq> ns \<longrightarrow> yml_lookup all' ns' s = yml_lookup yml_paths_all ns' s"
    by (simp add: yml_dir_step_lookup [OF a])
next
  assume b: "get_yml_paths fs homedir = Inr (final, out2)
      \<and> read_lines_pairs fs (homedir @ ''/wic/yml_dirs.txt'') = Inr (pairs1 @ (ns, dir) # pairs2)
      \<and> map_of (yml_pair_paths fs dir) s = Some v
      \<and> (\<forall>(ns', dir') \<in> set pairs2. ns' = ns \<longrightarrow> map_of (yml_pair_paths fs dir') s = None)"
  then have "yml_dirs_loop fs (homedir @ ''/wic/yml_dirs.txt'') ([], [])
             (pairs1 @ (ns, dir) # pairs2) = Inr (final, out2)"
    by (intro get_yml_paths_Inr) auto
  with b show "yml_lookup final ns s = Some v"
    by (intro yml_dirs_loop_last_line) auto
qed

text \<open>
  The theorem in the example environment: merging the first directory into a namespace
  that already has \<^verbatim>\<open>foo\<close> and \<^verbatim>\<open>baz\<close> replaces \<^verbatim>\<open>foo\<close> and keeps \<^verbatim>\<open>baz\<close>; and \<^verbatim>\<open>bar\<close>,
  which only the first registry line has, is in the final catalog.
\<close>

theorem yml_merge_frame_witness:
  "yml_dir_step demo_fs ''/home/u/wic/yml_dirs.txt''
      ([(''ns'', [(''foo'', ''/w/old/foo.yml''), (''baz'', ''/w/old/baz.yml'')])], [])
      (''ns'', ''a'')
     = Inr ([(''ns'', [(''foo'', ''/w/a/foo.yml''), (''baz'', ''/w/old/baz.yml''),
                       (''bar'', ''/w/a/bar.yml'')])], [])
   \<and> map_of (yml_pair_paths demo_fs ''a'') ''baz'' = None
   \<and> yml_lookup [(''ns'', [(''foo'', ''/w/a/foo.yml''), (''baz'', ''/w/old/baz.yml''),
                            (''bar'', ''/w/a/bar.yml'')])] ''ns'' ''baz''
       = yml_lookup [(''ns'', [(''foo'', ''/w/old/foo.yml''), (''baz'', ''/w/old/baz.yml'')])]
           ''ns'' ''baz''
   \<and> map_of (yml_pair_paths demo_fs ''a'') ''bar'' = Some ''/w/a/bar.yml''
   \<and> yml_result_lookup (get_yml_paths demo_fs ''/home/u'') ''ns'' ''bar''
       = Some ''/w/a/bar.yml''"
proof -
  have st: "yml_dir_step demo_fs ''/home/u/wic/yml_dirs.txt''
      ([(''ns'', [(''foo'', ''/w/old/foo.yml''), (''baz'', ''/w/old/baz.yml'')])], [])
      (''ns'', ''a'')
     = Inr ([(''ns'', [(''foo'', ''/w/a/foo.yml''), (''baz'', ''/w/old/baz.yml''),
                       (''bar'', ''/w/a/bar.yml'')])], [])"
    by (simp add: yml_dir_step_Inr demo_yml_pair_paths demo_fs_yml)
  have r: "read_lines_pairs demo_fs (''/home/u'' @ ''/wic/yml_dirs.txt'')
             = Inr ([] @ (''ns'', ''a'') # [(''ns'', ''bb/c''), (''ns'', ''empty'')])"
    by (simp add: demo_fs_yml)
  have m: "map_of (yml_pair_paths demo_fs ''a'') ''bar'' = Some ''/w/a/bar.yml''"
    by (simp add: demo_yml_pair_paths)
  have l: "\<forall>(ns', dir') \<in> set [(''ns'', ''bb/c''), (''ns'', ''empty'')]. ns' = ''ns'' \<longrightarrow>
             map_of (yml_pair_paths demo_fs dir') ''bar'' = None"
    by (simp add: demo_yml_pair_paths)
  have n: "map_of (yml_pair_paths demo_fs ''a'') ''baz'' = None"
    by (simp add: demo_yml_pair_paths)
  note t = yml_merge_frame
    [of demo_fs "''/home/u/wic/yml_dirs.txt''"
        "[(''ns'', [(''foo'', ''/w/old/foo.yml''), (''baz'', ''/w/old/baz.yml'')])]" "[]"
        "''ns''" "''a''"
        "[(''ns'', [(''foo'', ''/w/a/foo.yml''), (''baz'', ''/w/old/baz.yml''),
                    (''bar'', ''/w/a/bar.yml'')])]" "[]"
        "''/home/u''"
        "[(''ns'', [(''bar'', ''/w/a/bar.yml''), (''foo'', ''/w/bb/c/foo.yml'')])]"
        "no_files_warning ''yml'' ''empty'' ''/home/u/wic/yml_dirs.txt''"
        "[]" "[(''ns'', ''bb/c''), (''ns'', ''empty'')]" "''bar''" "''/w/a/bar.yml''"]
  note t1 = t [THEN conjunct1, THEN mp, OF st]
  note t2 = t [THEN conjunct2, THEN mp,
                OF conjI [OF demo_get_yml_paths conjI [OF r conjI [OF m l]]]]
  from t1 [THEN conjunct2, THEN conjunct1, THEN spec, of "''baz''"] n
  have a: "yml_lookup [(''ns'', [(''foo'', ''/w/a/foo.yml''), (''baz'', ''/w/old/baz.yml''),
                            (''bar'', ''/w/a/bar.yml'')])] ''ns'' ''baz''
       = yml_lookup [(''ns'', [(''foo'', ''/w/old/foo.yml''), (''baz'', ''/w/old/baz.yml'')])]
           ''ns'' ''baz''"
    by (simp only: option.case)
  from t2 have d: "yml_result_lookup (get_yml_paths demo_fs ''/home/u'') ''ns'' ''bar''
       = Some ''/w/a/bar.yml''"
    by (simp only: demo_get_yml_paths yml_result_lookup_def sum.case prod.case)
  from st n a m d show ?thesis
    by (intro conjI)
qed

section \<open>Properties of the tool catalog\<close>



lemma validate_cwl_skip_schemas:
  "validate_cwl fs p skip_schemas = validate_cwl fs p skip_schemas'"
  by (simp add: validate_cwl_def)

lemma tools_file_step_Inr:
  assumes "tools_file_step fs v s ns tools p = Inr tools'"
  shows "(str_in ''biobb_md'' p \<and> tools' = tools)
       \<or> (\<not> str_in ''biobb_md'' p
          \<and> (\<exists>kvs. load_yaml fs p = Inr (JObj kvs)
                \<and> tools' = dict_set (StepId (path_stem p) ns)
                            (Tool (abspath fs p) (JObj (set_stdout_stderr (path_stem p) kvs)))
                            tools))"
  using assms
  by (auto simp: tools_file_step_def Let_def split: if_splits sum.splits json.splits)

lemma tools_files_loop_invariant:
  assumes "tools_files_loop fs v s ns tools ps = Inr tools'"
    and "P tools"
    and "\<And>t p t'. P t \<Longrightarrow> p \<in> set ps \<Longrightarrow> tools_file_step fs v s ns t p = Inr t' \<Longrightarrow> P t'"
  shows "P tools'"
  using assms
proof (induction ps arbitrary: tools)
  case Nil
  then show ?case by simp
next
  case (Cons p ps)
  from Cons.prems(1) obtain t1
    where s1: "tools_file_step fs v s ns tools p = Inr t1"
      and l1: "tools_files_loop fs v s ns t1 ps = Inr tools'"
    by (auto split: sum.splits)
  from Cons.prems(2) s1 have "P t1"
    by (rule Cons.prems(3) [where p = p, simplified])
  with l1 show ?case
    by (rule Cons.IH) (auto intro: Cons.prems(3))
qed

lemma tools_dir_step_Inr:
  "tools_dir_step fs v s f (tools, out) (ns, dir) = Inr st' \<longleftrightarrow>
     mkdir fs ''autogenerated/schemas/tools/'' = None
     \<and> (\<exists>tools'. tools_files_loop fs v s ns tools (glob_cwl fs dir) = Inr tools'
          \<and> st' = (tools', if glob_cwl fs dir = []
                           then out @ no_files_warning ''cwl'' dir (absolute fs f) else out))"
  by (auto simp: tools_dir_step_def Let_def split: option.splits sum.splits)

lemma tools_dirs_loop_invariant:
  assumes "tools_dirs_loop fs v s f (tools, out) pairs = Inr (tools', out')"
    and "P tools"
    and "\<And>t p t' ns dir. P t \<Longrightarrow> (ns, dir) \<in> set pairs \<Longrightarrow> p \<in> set (glob_cwl fs dir)
           \<Longrightarrow> tools_file_step fs v s ns t p = Inr t' \<Longrightarrow> P t'"
  shows "P tools'"
  using assms
proof (induction pairs arbitrary: tools out)
  case Nil
  then show ?case by simp
next
  case (Cons pair pairs)
  obtain ns dir where pair: "pair = (ns, dir)" by (cases pair)
  from Cons.prems(1) pair obtain t1 out1
    where s1: "tools_dir_step fs v s f (tools, out) (ns, dir) = Inr (t1, out1)"
      and l1: "tools_dirs_loop fs v s f (t1, out1) pairs = Inr (tools', out')"
    by (auto split: sum.splits)
  from s1 have "tools_files_loop fs v s ns tools (glob_cwl fs dir) = Inr t1"
    by (auto simp: tools_dir_step_Inr)
  then have "P t1"
    using Cons.prems(2)
    by (rule tools_files_loop_invariant) (auto intro: Cons.prems(3) simp: pair)
  with l1 show ?case
    by (rule Cons.IH) (auto intro: Cons.prems(3))
qed

lemma get_tools_cwl_Inr:
  assumes "get_tools_cwl fs homedir v s = Inr r"
  shows "\<exists>pairs. read_lines_pairs fs (homedir @ ''/wic/cwl_dirs.txt'') = Inr pairs
           \<and> tools_dirs_loop fs v s (homedir @ ''/wic/cwl_dirs.txt'') ([], []) pairs = Inr r"
  using assms by (auto simp: get_tools_cwl_def Let_def split: option.splits sum.splits)

lemma demo_fs_cwl:
  "read_lines_pairs demo_fs ''/home/u/wic/cwl_dirs.txt''
     = Inr [(''ns'', ''t''), (''ns'', ''u/v''), (''ns'', ''empty'')]"
  "glob_cwl demo_fs ''t'' = [''t/align.cwl'', ''t/biobb_md/old.cwl'', ''t/sort.cwl'']"
  "glob_cwl demo_fs ''u/v'' = [''u/v/align.cwl'']"
  "glob_cwl demo_fs ''empty'' = []"
  "load_yaml demo_fs ''t/align.cwl''
     = Inr (JObj [(''class'', JStr ''CommandLineTool''), (''cwlVersion'', JStr ''v1.0'')])"
  "load_yaml demo_fs ''u/v/align.cwl''
     = Inr (JObj [(''stdout'', JStr ''old.log''), (''class'', JStr ''CommandLineTool'')])"
  "load_yaml demo_fs ''t/sort.cwl'' = Inr (JObj [(''class'', JStr ''CommandLineTool'')])"
  "copy_config_files demo_fs h = None"
  by (simp_all add: demo_fs_def)

lemma demo_validate_cwl: "validate_cwl demo_fs p s = Inr ()"
  by (simp add: validate_cwl_def demo_fs_def)

lemma demo_cwl_stems:
  "path_stem ''t/align.cwl'' = ''align''"
  "path_stem ''t/sort.cwl'' = ''sort''"
  "path_stem ''u/v/align.cwl'' = ''align''"
  by (simp_all add: path_stem_def path_name_def)

lemma demo_biobb:
  "\<not> str_in ''biobb_md'' ''t/align.cwl''"
  "str_in ''biobb_md'' ''t/biobb_md/old.cwl''"
  "\<not> str_in ''biobb_md'' ''t/sort.cwl''"
  "\<not> str_in ''biobb_md'' ''u/v/align.cwl''"
  by simp_all

lemma demo_tools_file_step:
  "tools_file_step demo_fs True s ''ns'' tools ''t/align.cwl''
     = Inr (dict_set (StepId ''align'' ''ns'')
              (Tool ''/w/t/align.cwl''
                 (JObj [(''class'', JStr ''CommandLineTool''), (''cwlVersion'', JStr ''v1.0''),
                        (''stdout'', JStr ''align.out''), (''stderr'', JStr ''align.err'')]))
              tools)"
  "tools_file_step demo_fs True s ''ns'' tools ''t/biobb_md/old.cwl'' = Inr tools"
  "tools_file_step demo_fs True s ''ns'' tools ''t/sort.cwl''
     = Inr (dict_set (StepId ''sort'' ''ns'')
              (Tool ''/w/t/sort.cwl''
                 (JObj [(''class'', JStr ''CommandLineTool''),
                        (''stdout'', JStr ''sort.out''), (''stderr'', JStr ''sort.err'')]))
              tools)"
  "tools_file_step demo_fs True s ''ns'' tools ''u/v/align.cwl''
     = Inr (dict_set (StepId ''align'' ''ns'')
              (Tool ''/w/u/v/align.cwl''
                 (JObj [(''stdout'', JStr ''align.out''), (''class'', JStr ''CommandLineTool''),
                        (''stderr'', JStr ''align.err'')]))
              tools)"
  by (simp_all only: tools_file_step_def demo_biobb if_True if_False demo_fs_cwl sum.case
        demo_cwl_stems Let_def demo_validate_cwl json.case demo_fs_yml set_stdout_stderr_def)
     simp_all

lemma demo_get_tools_cwl:
  "get_tools_cwl demo_fs ''/home/u'' True s
     = Inr (demo_tools, no_files_warning ''cwl'' ''empty'' ''/home/u/wic/cwl_dirs.txt'')"
  by (simp add: get_tools_cwl_def demo_fs_cwl tools_dir_step_def demo_tools_file_step
      demo_fs_yml demo_tools_def)



lemma tools_file_step_distinct:
  assumes "distinct (map fst tools)" and "tools_file_step fs v s ns tools p = Inr tools'"
  shows "distinct (map fst tools')"
  using tools_file_step_Inr [OF assms(2)] assms(1)
  by (auto simp: distinct_dict_set)

lemma tools_files_loop_append:
  "tools_files_loop fs v s ns tools (ps1 @ ps2) =
     (case tools_files_loop fs v s ns tools ps1 of
        Inl e \<Rightarrow> Inl e
      | Inr tools' \<Rightarrow> tools_files_loop fs v s ns tools' ps2)"
  by (induction ps1 arbitrary: tools) (simp_all split: sum.splits)

lemma tools_dirs_loop_append:
  "tools_dirs_loop fs v s f st (pairs1 @ pairs2) =
     (case tools_dirs_loop fs v s f st pairs1 of
        Inl e \<Rightarrow> Inl e
      | Inr st' \<Rightarrow> tools_dirs_loop fs v s f st' pairs2)"
  by (induction pairs1 arbitrary: st) (simp_all split: sum.splits)

lemma tools_file_step_frame:
  assumes "tools_file_step fs v s ns tools p = Inr tools'"
    and "str_in ''biobb_md'' p \<or> StepId (path_stem p) ns \<noteq> sid"
  shows "map_of tools' sid = map_of tools sid"
  using tools_file_step_Inr [OF assms(1)] assms(2)
  by (auto simp: map_of_dict_set)

lemma tools_files_loop_frame:
  assumes "tools_files_loop fs v s ns tools ps = Inr tools'"
    and "\<forall>p \<in> set ps. str_in ''biobb_md'' p \<or> StepId (path_stem p) ns \<noteq> sid"
  shows "map_of tools' sid = map_of tools sid"
  using assms
proof (induction ps arbitrary: tools)
  case Nil
  then show ?case by simp
next
  case (Cons p ps)
  from Cons.prems(1) obtain t1
    where s1: "tools_file_step fs v s ns tools p = Inr t1"
      and l1: "tools_files_loop fs v s ns t1 ps = Inr tools'"
    by (auto split: sum.splits)
  from s1 Cons.prems(2) have "map_of t1 sid = map_of tools sid"
    by (intro tools_file_step_frame) auto
  moreover from l1 Cons.prems(2) have "map_of tools' sid = map_of t1 sid"
    by (intro Cons.IH) auto
  ultimately show ?case by simp
qed

lemma tools_dirs_loop_frame:
  assumes "tools_dirs_loop fs v s f (tools, out) pairs = Inr (tools', out')"
    and "\<forall>(ns, dir) \<in> set pairs. \<forall>p \<in> set (glob_cwl fs dir).
           str_in ''biobb_md'' p \<or> StepId (path_stem p) ns \<noteq> sid"
  shows "map_of tools' sid = map_of tools sid"
  using assms
proof (induction pairs arbitrary: tools out)
  case Nil
  then show ?case by simp
next
  case (Cons pair pairs)
  obtain ns dir where pair: "pair = (ns, dir)" by (cases pair)
  from Cons.prems(1) pair obtain t1 out1
    where s1: "tools_dir_step fs v s f (tools, out) (ns, dir) = Inr (t1, out1)"
      and l1: "tools_dirs_loop fs v s f (t1, out1) pairs = Inr (tools', out')"
    by (auto split: sum.splits)
  from s1 have "tools_files_loop fs v s ns tools (glob_cwl fs dir) = Inr t1"
    by (auto simp: tools_dir_step_Inr)
  with Cons.prems(2) pair have "map_of t1 sid = map_of tools sid"
    by (intro tools_files_loop_frame) auto
  moreover from l1 Cons.prems(2) have "map_of tools' sid = map_of t1 sid"
    by (intro Cons.IH) auto
  ultimately show ?case by simp
qed

lemma tools_last_write:
  assumes l: "tools_dirs_loop fs v s f st (pairs1 @ (ns, dir) # pairs2) = Inr (tools', out')"
    and g: "glob_cwl fs dir = ps1 @ p # ps2"
    and nb: "\<not> str_in ''biobb_md'' p"
    and later_files: "\<forall>q \<in> set ps2. str_in ''biobb_md'' q \<or> path_stem q \<noteq> path_stem p"
    and later_dirs: "\<forall>(ns', dir') \<in> set pairs2. \<forall>q \<in> set (glob_cwl fs dir').
           str_in ''biobb_md'' q \<or> StepId (path_stem q) ns' \<noteq> StepId (path_stem p) ns"
  shows "\<exists>doc. load_yaml fs p = Inr (JObj doc)
           \<and> map_of tools' (StepId (path_stem p) ns)
               = Some (Tool (abspath fs p) (JObj (set_stdout_stderr (path_stem p) doc)))"
proof -
  from l obtain t0 out0 t3 out3
    where d: "tools_dir_step fs v s f (t0, out0) (ns, dir) = Inr (t3, out3)"
      and l2: "tools_dirs_loop fs v s f (t3, out3) pairs2 = Inr (tools', out')"
    by (auto simp: tools_dirs_loop_append split: sum.splits)
  from d g have "tools_files_loop fs v s ns t0 (ps1 @ p # ps2) = Inr t3"
    by (auto simp: tools_dir_step_Inr)
  then obtain t1 t2
    where s: "tools_file_step fs v s ns t1 p = Inr t2"
      and l3: "tools_files_loop fs v s ns t2 ps2 = Inr t3"
    by (auto simp: tools_files_loop_append split: sum.splits)
  from tools_file_step_Inr [OF s] nb obtain doc
    where ld: "load_yaml fs p = Inr (JObj doc)"
      and t2: "t2 = dict_set (StepId (path_stem p) ns)
                 (Tool (abspath fs p) (JObj (set_stdout_stderr (path_stem p) doc))) t1"
    by auto
  have "map_of t3 (StepId (path_stem p) ns) = map_of t2 (StepId (path_stem p) ns)"
    using l3 later_files by (intro tools_files_loop_frame) auto
  moreover have "map_of tools' (StepId (path_stem p) ns) = map_of t3 (StepId (path_stem p) ns)"
    using l2 later_dirs by (rule tools_dirs_loop_frame)
  ultimately show ?thesis
    using ld by (simp add: t2 map_of_dict_set)
qed

text \<open>
  C8. The catalog never has a StepId twice: the body of the loop over the files keeps the
  keys of the catalog distinct, and so they are in the returned catalog. The last file, in
  the order of processing (registry lines in file order, each glob in its order), that
  yields a StepId is the one stored under it: a file of the same namespace and stem that
  was processed before it is overwritten.
\<close>

theorem tools_step_id_unique_last_write_wins:
  "(distinct (map fst tools)
      \<and> tools_file_step fs validate_plugins skip_schemas plugin_ns tools q = Inr tools'
      \<longrightarrow> distinct (map fst tools'))
   \<and> (get_tools_cwl fs homedir validate_plugins skip_schemas = Inr (tools_cwl, out)
      \<longrightarrow> distinct (map fst tools_cwl))
   \<and> (get_tools_cwl fs homedir validate_plugins skip_schemas = Inr (tools_cwl, out)
      \<and> read_lines_pairs fs (homedir @ ''/wic/cwl_dirs.txt'') = Inr (pairs1 @ (ns, dir) # pairs2)
      \<and> glob_cwl fs dir = ps1 @ p # ps2
      \<and> \<not> str_in ''biobb_md'' p
      \<and> (\<forall>q \<in> set ps2. str_in ''biobb_md'' q \<or> path_stem q \<noteq> path_stem p)
      \<and> (\<forall>(ns', dir') \<in> set pairs2. \<forall>q \<in> set (glob_cwl fs dir').
            str_in ''biobb_md'' q \<or> ns' \<noteq> ns \<or> path_stem q \<noteq> path_stem p)
      \<longrightarrow> (\<exists>doc. load_yaml fs p = Inr (JObj doc)
             \<and> map_of tools_cwl (StepId (path_stem p) ns)
                 = Some (Tool (abspath fs p) (JObj (set_stdout_stderr (path_stem p) doc)))))"
proof (intro conjI impI)
  assume "distinct (map fst tools)
      \<and> tools_file_step fs validate_plugins skip_schemas plugin_ns tools q = Inr tools'"
  then show "distinct (map fst tools')"
    by (auto intro: tools_file_step_distinct)
next
  assume "get_tools_cwl fs homedir validate_plugins skip_schemas = Inr (tools_cwl, out)"
  then obtain pairs
    where l: "tools_dirs_loop fs validate_plugins skip_schemas
                (homedir @ ''/wic/cwl_dirs.txt'') ([], []) pairs = Inr (tools_cwl, out)"
    by (auto dest: get_tools_cwl_Inr)
  show "distinct (map fst tools_cwl)"
    by (rule tools_dirs_loop_invariant [OF l, where P = "\<lambda>t. distinct (map fst t)"])
       (auto intro: tools_file_step_distinct)
next
  assume a: "get_tools_cwl fs homedir validate_plugins skip_schemas = Inr (tools_cwl, out)
      \<and> read_lines_pairs fs (homedir @ ''/wic/cwl_dirs.txt'') = Inr (pairs1 @ (ns, dir) # pairs2)
      \<and> glob_cwl fs dir = ps1 @ p # ps2
      \<and> \<not> str_in ''biobb_md'' p
      \<and> (\<forall>q \<in> set ps2. str_in ''biobb_md'' q \<or> path_stem q \<noteq> path_stem p)
      \<and> (\<forall>(ns', dir') \<in> set pairs2. \<forall>q \<in> set (glob_cwl fs dir').
            str_in ''biobb_md'' q \<or> ns' \<noteq> ns \<or> path_stem q \<noteq> path_stem p)"
  then have l: "tools_dirs_loop fs validate_plugins skip_schemas
                (homedir @ ''/wic/cwl_dirs.txt'') ([], []) (pairs1 @ (ns, dir) # pairs2)
              = Inr (tools_cwl, out)"
    by (auto dest: get_tools_cwl_Inr)
  from a have g: "glob_cwl fs dir = ps1 @ p # ps2"
    and nb: "\<not> str_in ''biobb_md'' p"
    and lf: "\<forall>q \<in> set ps2. str_in ''biobb_md'' q \<or> path_stem q \<noteq> path_stem p"
    by simp_all
  from a have ld: "\<forall>(ns', dir') \<in> set pairs2. \<forall>q \<in> set (glob_cwl fs dir').
           str_in ''biobb_md'' q \<or> StepId (path_stem q) ns' \<noteq> StepId (path_stem p) ns"
    by auto
  from l g nb lf ld
  show "\<exists>doc. load_yaml fs p = Inr (JObj doc)
             \<and> map_of tools_cwl (StepId (path_stem p) ns)
                 = Some (Tool (abspath fs p) (JObj (set_stdout_stderr (path_stem p) doc)))"
    by (rule tools_last_write)
qed

text \<open>
  The theorem in the example environment: \<^verbatim>\<open>t/align.cwl\<close> and \<^verbatim>\<open>u/v/align.cwl\<close> yield the
  same StepId, and the catalog has the second, which is processed later.
\<close>

theorem tools_step_id_unique_last_write_wins_witness:
  "tools_file_step demo_fs True False ''ns''
      [(StepId ''align'' ''ns'',
        Tool ''/w/t/align.cwl''
          (JObj [(''class'', JStr ''CommandLineTool''), (''cwlVersion'', JStr ''v1.0''),
                 (''stdout'', JStr ''align.out''), (''stderr'', JStr ''align.err'')]))]
      ''u/v/align.cwl''
     = Inr [(StepId ''align'' ''ns'',
             Tool ''/w/u/v/align.cwl''
               (JObj [(''stdout'', JStr ''align.out''), (''class'', JStr ''CommandLineTool''),
                      (''stderr'', JStr ''align.err'')]))]
   \<and> get_tools_cwl demo_fs ''/home/u'' True False
       = Inr (demo_tools, no_files_warning ''cwl'' ''empty'' ''/home/u/wic/cwl_dirs.txt'')
   \<and> distinct (map fst demo_tools)
   \<and> read_lines_pairs demo_fs ''/home/u/wic/cwl_dirs.txt''
       = Inr [(''ns'', ''t''), (''ns'', ''u/v''), (''ns'', ''empty'')]
   \<and> glob_cwl demo_fs ''t'' = [''t/align.cwl'', ''t/biobb_md/old.cwl'', ''t/sort.cwl'']
   \<and> glob_cwl demo_fs ''u/v'' = [''u/v/align.cwl'']
   \<and> path_stem ''t/align.cwl'' = path_stem ''u/v/align.cwl''
   \<and> (\<exists>doc. load_yaml demo_fs ''u/v/align.cwl'' = Inr (JObj doc)
         \<and> map_of demo_tools (StepId (path_stem ''u/v/align.cwl'') ''ns'')
             = Some (Tool (abspath demo_fs ''u/v/align.cwl'')
                       (JObj (set_stdout_stderr (path_stem ''u/v/align.cwl'') doc))))"
proof -
  note t = tools_step_id_unique_last_write_wins
    [of "[(StepId ''align'' ''ns'',
           Tool ''/w/t/align.cwl''
             (JObj [(''class'', JStr ''CommandLineTool''), (''cwlVersion'', JStr ''v1.0''),
                    (''stdout'', JStr ''align.out''), (''stderr'', JStr ''align.err'')]))]"
        demo_fs True False "''ns''" "''u/v/align.cwl''"
        "[(StepId ''align'' ''ns'',
             Tool ''/w/u/v/align.cwl''
               (JObj [(''stdout'', JStr ''align.out''), (''class'', JStr ''CommandLineTool''),
                      (''stderr'', JStr ''align.err'')]))]"
        "''/home/u''" demo_tools
        "no_files_warning ''cwl'' ''empty'' ''/home/u/wic/cwl_dirs.txt''"
        "[(''ns'', ''t'')]" "''ns''" "''u/v''" "[(''ns'', ''empty'')]"
        "[]" "''u/v/align.cwl''" "[]"]
  have s: "tools_file_step demo_fs True False ''ns''
      [(StepId ''align'' ''ns'',
        Tool ''/w/t/align.cwl''
          (JObj [(''class'', JStr ''CommandLineTool''), (''cwlVersion'', JStr ''v1.0''),
                 (''stdout'', JStr ''align.out''), (''stderr'', JStr ''align.err'')]))]
      ''u/v/align.cwl''
     = Inr [(StepId ''align'' ''ns'',
             Tool ''/w/u/v/align.cwl''
               (JObj [(''stdout'', JStr ''align.out''), (''class'', JStr ''CommandLineTool''),
                      (''stderr'', JStr ''align.err'')]))]"
    by (simp add: demo_tools_file_step)
  have d0: "distinct (map fst [(StepId ''align'' ''ns'',
        Tool ''/w/t/align.cwl''
          (JObj [(''class'', JStr ''CommandLineTool''), (''cwlVersion'', JStr ''v1.0''),
                 (''stdout'', JStr ''align.out''), (''stderr'', JStr ''align.err'' :: int json)]))])"
    by simp
  note t1 = t [THEN conjunct1, THEN mp, OF conjI [OF d0 s]]
  note t2 = t [THEN conjunct2, THEN conjunct1, THEN mp, OF demo_get_tools_cwl]
  have r: "read_lines_pairs demo_fs (''/home/u'' @ ''/wic/cwl_dirs.txt'')
             = Inr ([(''ns'', ''t'')] @ (''ns'', ''u/v'') # [(''ns'', ''empty'')])"
    by (simp add: demo_fs_cwl)
  have g: "glob_cwl demo_fs ''u/v'' = [] @ ''u/v/align.cwl'' # []"
    by (simp add: demo_fs_cwl)
  have lf: "\<forall>q \<in> set []. str_in ''biobb_md'' q \<or> path_stem q \<noteq> path_stem ''u/v/align.cwl''"
    by simp
  have ld: "\<forall>(ns', dir') \<in> set [(''ns'', ''empty'')]. \<forall>q \<in> set (glob_cwl demo_fs dir').
            str_in ''biobb_md'' q \<or> ns' \<noteq> ''ns'' \<or> path_stem q \<noteq> path_stem ''u/v/align.cwl''"
    by (simp add: demo_fs_cwl)
  note t3 = t [THEN conjunct2, THEN conjunct2, THEN mp,
      OF conjI [OF demo_get_tools_cwl conjI [OF r conjI [OF g conjI [OF demo_biobb(4)
           conjI [OF lf ld]]]]]]
  have e: "path_stem ''t/align.cwl'' = path_stem ''u/v/align.cwl''"
    by (simp add: demo_cwl_stems)
  from s demo_get_tools_cwl t2 demo_fs_cwl(1) demo_fs_cwl(2) demo_fs_cwl(3) e t3
  show ?thesis
    by (intro conjI)
qed

text \<open>
  C3. \<^verbatim>\<open>get_tools_cwl\<close> hands \<^verbatim>\<open>skip_schemas\<close> to \<^verbatim>\<open>validate_cwl\<close>, which does not use it: the
  validation of a file, and with it the whole build, is the same for both values of the
  flag.
\<close>

theorem skip_schemas_has_no_effect:
  "validate_cwl fs cwl_path_str True = validate_cwl fs cwl_path_str False
   \<and> get_tools_cwl fs homedir True True = get_tools_cwl fs homedir True False"
proof -
  have step: "\<And>ns tools p. tools_file_step fs True True ns tools p
                            = tools_file_step fs True False ns tools p"
    unfolding tools_file_step_def validate_cwl_def by (rule refl)
  have files: "\<And>ns tools ps. tools_files_loop fs True True ns tools ps
                            = tools_files_loop fs True False ns tools ps"
  proof -
    fix ns tools ps
    show "tools_files_loop fs True True ns tools ps = tools_files_loop fs True False ns tools ps"
      by (induction ps arbitrary: tools) (simp_all add: step split: sum.splits)
  qed
  have dir: "\<And>f st pair. tools_dir_step fs True True f st pair
                          = tools_dir_step fs True False f st pair"
    unfolding tools_dir_step_def files by (rule refl)
  have dirs: "\<And>f st pairs. tools_dirs_loop fs True True f st pairs
                           = tools_dirs_loop fs True False f st pairs"
  proof -
    fix f st pairs
    show "tools_dirs_loop fs True True f st pairs = tools_dirs_loop fs True False f st pairs"
      by (induction pairs arbitrary: st) (simp_all add: dir split: sum.splits)
  qed
  have "validate_cwl fs cwl_path_str True = validate_cwl fs cwl_path_str False"
    by (rule validate_cwl_skip_schemas)
  moreover have "get_tools_cwl fs homedir True True = get_tools_cwl fs homedir True False"
    unfolding get_tools_cwl_def dirs by (rule refl)
  ultimately show ?thesis by (rule conjI)
qed

section \<open>Directories without files\<close>


lemma demo_no_files_warning: "no_files_warning ''cwl'' ''empty'' ''/home/u/wic/cwl_dirs.txt''
     = [''Warning! No cwl files found in empty.'' @ [CHR 0x0A]
                 @ ''Check /home/u/wic/cwl_dirs.txt'',
               ''This almost certainly means you are not in the correct directory.'']"
  by (simp add: no_files_warning_def)


end
